theory Spec2Isabelle
  imports Complex_Main "HOL-Library.AList" "HOL-Library.Sublist"
begin

section \<open>JavaScript containers and failures\<close>

text \<open>
  The only failure the modelled code can raise is a \<open>TypeError\<close>: a method call on
  \<open>undefined\<close>. A computation that can raise returns \<open>error + 'a\<close>, \<open>Inl\<close> being the raise.
\<close>

datatype error = TypeError

text \<open>
  A JavaScript string is a \<open>string\<close>: the list of the bytes of its UTF-8 encoding, a
  \<open>char\<close> being one byte. A character up to U+007F is one element, any other takes two
  to four (U+00A0 is \<open>[CHR 0xC2, CHR 0xA0]\<close>). Equality, concatenation, \<open>startsWith\<close>,
  \<open>endsWith\<close>, and \<open>includes\<close> and \<open>slice\<close> at an ASCII character are then the same
  operations on the lists.
\<close>

text \<open>
  A JavaScript \<open>Set\<close> keeps its elements in insertion order and holds no element twice:
  it is a list, \<open>add\<close> appends an element that is not yet there.
\<close>

definition set_add :: "'a list \<Rightarrow> 'a \<Rightarrow> 'a list" where
  "set_add s x = (if x \<in> set s then s else s @ [x])"

text \<open>
  A JavaScript \<open>Map\<close> keeps its entries in insertion order, one per key: it is an
  association list. \<open>has\<close> and \<open>get\<close> are lookups (\<open>get\<close> gives \<open>undefined\<close>, here
  \<open>None\<close>, on a missing key); \<open>set\<close> replaces the value of a present key in place and
  appends a new entry otherwise, which is \<^const>\<open>AList.update\<close>.
\<close>

definition map_has :: "('k \<times> 'v) list \<Rightarrow> 'k \<Rightarrow> bool" where
  "map_has m k = (map_of m k \<noteq> None)"

definition map_set :: "('k \<times> 'v) list \<Rightarrow> 'k \<Rightarrow> 'v \<Rightarrow> ('k \<times> 'v) list" where
  "map_set m k v = AList.update k v m"

section \<open>neighborFinder.ts\<close>

text \<open>The field \<open>adjacencyList: Map<string, Set<string>>\<close>.\<close>

type_synonym adjacency = "(string \<times> string list) list"

text \<open>The result of \<open>findNeighborsByHop\<close>: \<open>Map<number, Set<string>>\<close>.\<close>

type_synonym hop_map = "(int \<times> string list) list"

text \<open>\<open>this.adjacencyList.get(id) || new Set()\<close>\<close>

definition neighbors :: "adjacency \<Rightarrow> string \<Rightarrow> string list" where
  "neighbors adj v = (case map_of adj v of None \<Rightarrow> [] | Some s \<Rightarrow> s)"

subsection \<open>findNeighborsByHop\<close>

text \<open>
  \<open>result.get(distance)!.add(currentId)\<close>: the \<open>!\<close> is checked by the compiler only, so
  on a missing key the call of \<open>add\<close> on \<open>undefined\<close> raises.
\<close>

definition hop_add :: "hop_map \<Rightarrow> int \<Rightarrow> string \<Rightarrow> error + hop_map" where
  "hop_add result distance currentId =
     (case map_of result distance of
        None \<Rightarrow> Inl TypeError
      | Some s \<Rightarrow> Inr (map_set result distance (set_add s currentId)))"

text \<open>
  The body of \<open>neighbors.forEach\<close> in \<open>findNeighborsByHop\<close>, on the pair of the visited set
  and the queue; \<open>d\<close> is \<open>distance + 1\<close>.
\<close>

fun visit_hop :: "int \<Rightarrow> string \<Rightarrow> string list \<times> (string \<times> int) list
    \<Rightarrow> string list \<times> (string \<times> int) list" where
  "visit_hop d neighborId (visited, queue) =
     (if neighborId \<in> set visited then (visited, queue)
      else (set_add visited neighborId, queue @ [(neighborId, d)]))"

text \<open>Every identifier the adjacency structure mentions, as a key or as a neighbor.\<close>

definition mentioned :: "adjacency \<Rightarrow> string set" where
  "mentioned adj = fst ` set adj \<union> (\<Union>(k, s) \<in> set adj. set s)"

lemma finite_mentioned: "finite (mentioned adj)"
  by (auto simp: mentioned_def)

lemma neighbors_mentioned: "set (neighbors adj v) \<subseteq> mentioned adj"
proof
  fix x
  assume x: "x \<in> set (neighbors adj v)"
  then obtain s where s: "map_of adj v = Some s" "x \<in> set s"
    by (cases "map_of adj v") (auto simp: neighbors_def)
  then have "(v, s) \<in> set adj" by (simp add: map_of_SomeD)
  with s(2) show "x \<in> mentioned adj" by (auto simp: mentioned_def)
qed

lemma set_set_add: "set (set_add s x) = insert x (set s)"
  by (auto simp: set_add_def)

lemma fold_visit_hop:
  "fold (visit_hop d) ns (V, Q) = (V', Q') \<Longrightarrow>
   \<exists>new. V' = V @ new \<and> Q' = Q @ map (\<lambda>n. (n, d)) new \<and> distinct new
     \<and> set new = set ns - set V"
proof (induction ns arbitrary: V Q)
  case Nil
  then show ?case by simp
next
  case (Cons n ns)
  show ?case
  proof (cases "n \<in> set V")
    case True
    with Cons.prems have "fold (visit_hop d) ns (V, Q) = (V', Q')" by simp
    from Cons.IH [OF this] True show ?thesis by auto
  next
    case False
    with Cons.prems
    have "fold (visit_hop d) ns (V @ [n], Q @ [(n, d)]) = (V', Q')"
      by (simp add: set_add_def)
    from Cons.IH [OF this] obtain new where
      new: "V' = (V @ [n]) @ new" "Q' = (Q @ [(n, d)]) @ map (\<lambda>n. (n, d)) new"
        "distinct new" "set new = set ns - set (V @ [n])"
      by blast
    with False have "V' = V @ (n # new) \<and> Q' = Q @ map (\<lambda>n. (n, d)) (n # new)
        \<and> distinct (n # new) \<and> set (n # new) = set (n # ns) - set V"
      by auto
    then show ?thesis by blast
  qed
qed

text \<open>
  The \<open>while (queue.length > 0)\<close> loop of \<open>findNeighborsByHop\<close>, on the visited set, the
  queue and the result map. \<open>queue.shift()\<close> takes the head of the list.
\<close>

function bfs_hops :: "adjacency \<Rightarrow> int \<Rightarrow> string list \<Rightarrow> (string \<times> int) list \<Rightarrow> hop_map
    \<Rightarrow> error + hop_map" where
  "bfs_hops adj maxHops visited [] result = Inr result"
| "bfs_hops adj maxHops visited ((currentId, distance) # queue) result =
     (case (if 0 < distance \<and> distance \<le> maxHops
            then hop_add result distance currentId else Inr result) of
        Inl e \<Rightarrow> Inl e
      | Inr result' \<Rightarrow>
          (if distance < maxHops then
             (case fold (visit_hop (distance + 1)) (neighbors adj currentId) (visited, queue) of
                (visited', queue') \<Rightarrow> bfs_hops adj maxHops visited' queue' result')
           else bfs_hops adj maxHops visited queue result'))"
  by pat_completeness auto
termination
proof (relation "measure (\<lambda>(adj, maxHops, visited, queue, result).
    2 * card (mentioned adj - set visited) + length queue)", goal_cases)
  case 1
  show ?case by simp
next
  case (2 adj maxHops visited currentId distance queue result x2 x y)
  from fold_visit_hop [OF 2(3) [symmetric]] obtain new where
    new: "x = visited @ new" "y = queue @ map (\<lambda>n. (n, distance + 1)) new" "distinct new"
      "set new = set (neighbors adj currentId) - set visited"
    by blast
  have sub: "set new \<subseteq> mentioned adj - set visited"
    using new(4) neighbors_mentioned [of adj currentId] by auto
  have "mentioned adj - set x = (mentioned adj - set visited) - set new"
    using new(1) by auto
  then have "card (mentioned adj - set x) = card (mentioned adj - set visited) - card (set new)"
    using sub finite_mentioned [of adj] by (simp add: card_Diff_subset)
  moreover have "card (set new) \<le> card (mentioned adj - set visited)"
    using sub finite_mentioned [of adj] by (simp add: card_mono)
  moreover have "card (set new) = length new"
    using new(3) by (simp add: distinct_card)
  ultimately show ?case using new(2) by simp
next
  case 3
  then show ?case by simp
qed

text \<open>
  \<open>findNeighborsByHop(sourceId, maxHops)\<close>: the result map gets an empty set for each hop
  of \<open>1..maxHops\<close>, and is returned as it is when the source is not a key.
\<close>

definition findNeighborsByHop :: "adjacency \<Rightarrow> string \<Rightarrow> int \<Rightarrow> error + hop_map" where
  "findNeighborsByHop adj sourceId maxHops =
     (let result = fold (\<lambda>hop r. map_set r hop []) [1..maxHops] [] in
      if \<not> map_has adj sourceId then Inr result
      else bfs_hops adj maxHops [sourceId] [(sourceId, 0)] result)"

subsection \<open>getAllConnectedNodes\<close>

text \<open>The body of \<open>neighbors.forEach\<close> in \<open>getAllConnectedNodes\<close>.\<close>

fun visit_conn :: "string \<Rightarrow> string list \<times> string list \<Rightarrow> string list \<times> string list" where
  "visit_conn neighborId (visited, queue) =
     (if neighborId \<in> set visited then (visited, queue)
      else (set_add visited neighborId, queue @ [neighborId]))"

lemma fold_visit_conn:
  "fold visit_conn ns (V, Q) = (V', Q') \<Longrightarrow>
   \<exists>new. V' = V @ new \<and> Q' = Q @ new \<and> distinct new \<and> set new = set ns - set V"
proof (induction ns arbitrary: V Q)
  case Nil
  then show ?case by simp
next
  case (Cons n ns)
  show ?case
  proof (cases "n \<in> set V")
    case True
    with Cons.prems have "fold visit_conn ns (V, Q) = (V', Q')" by simp
    from Cons.IH [OF this] True show ?thesis by auto
  next
    case False
    with Cons.prems have "fold visit_conn ns (V @ [n], Q @ [n]) = (V', Q')"
      by (simp add: set_add_def)
    from Cons.IH [OF this] obtain new where
      new: "V' = (V @ [n]) @ new" "Q' = (Q @ [n]) @ new"
        "distinct new" "set new = set ns - set (V @ [n])"
      by blast
    with False have "V' = V @ (n # new) \<and> Q' = Q @ (n # new)
        \<and> distinct (n # new) \<and> set (n # new) = set (n # ns) - set V"
      by auto
    then show ?thesis by blast
  qed
qed

text \<open>The \<open>while\<close> loop of \<open>getAllConnectedNodes\<close>, on the visited set, the queue and
  the set \<open>connected\<close> (here \<open>conn\<close>).\<close>

function bfs_conn :: "adjacency \<Rightarrow> string \<Rightarrow> string list \<Rightarrow> string list \<Rightarrow> string list
    \<Rightarrow> string list" where
  "bfs_conn adj sourceId visited [] conn = conn"
| "bfs_conn adj sourceId visited (currentId # queue) conn =
     (let conn' = (if currentId \<noteq> sourceId then set_add conn currentId else conn)
      in case fold visit_conn (neighbors adj currentId) (visited, queue) of
           (visited', queue') \<Rightarrow> bfs_conn adj sourceId visited' queue' conn')"
  by pat_completeness auto
termination
proof (relation "measure (\<lambda>(adj, sourceId, visited, queue, conn).
    2 * card (mentioned adj - set visited) + length queue)", goal_cases)
  case 1
  show ?case by simp
next
  case (2 adj sourceId visited currentId queue conn x xa y)
  from fold_visit_conn [OF 2(2) [symmetric]] obtain new where
    new: "xa = visited @ new" "y = queue @ new" "distinct new"
      "set new = set (neighbors adj currentId) - set visited"
    by blast
  have sub: "set new \<subseteq> mentioned adj - set visited"
    using new(4) neighbors_mentioned [of adj currentId] by auto
  have "mentioned adj - set xa = (mentioned adj - set visited) - set new"
    using new(1) by auto
  then have "card (mentioned adj - set xa) = card (mentioned adj - set visited) - card (set new)"
    using sub finite_mentioned [of adj] by (simp add: card_Diff_subset)
  moreover have "card (set new) \<le> card (mentioned adj - set visited)"
    using sub finite_mentioned [of adj] by (simp add: card_mono)
  moreover have "card (set new) = length new"
    using new(3) by (simp add: distinct_card)
  ultimately show ?case using new(2) by simp
qed

definition getAllConnectedNodes :: "adjacency \<Rightarrow> string \<Rightarrow> string list" where
  "getAllConnectedNodes adj sourceId =
     (if \<not> map_has adj sourceId then []
      else bfs_conn adj sourceId [sourceId] [sourceId] [])"

text \<open>The set a hop-map holds at a hop: \<open>result.get(hop)\<close>, empty when the key is missing.\<close>

definition hop_set :: "hop_map \<Rightarrow> int \<Rightarrow> string set" where
  "hop_set result hop = (case map_of result hop of None \<Rightarrow> {} | Some s \<Rightarrow> set s)"

subsection \<open>Paths in the adjacency structure\<close>

text \<open>
  One step along the adjacency structure, from a key to a member of its neighbor set, and
  the paths made of such steps (of any length, the empty path included).
\<close>

definition edge :: "adjacency \<Rightarrow> string \<Rightarrow> string \<Rightarrow> bool" where
  "edge adj a b = (b \<in> set (neighbors adj a))"

definition reachable :: "adjacency \<Rightarrow> string \<Rightarrow> string \<Rightarrow> bool" where
  "reachable adj s v = (edge adj)\<^sup>*\<^sup>* s v"

text \<open>The loop invariant of \<open>getAllConnectedNodes\<close>: the source is visited, the queue holds
  visited nodes, visited nodes are reachable, a visited node that left the queue has all
  its neighbors visited and (the source apart) is in \<open>connected\<close>, and \<open>connected\<close> holds
  visited nodes other than the source.\<close>

definition conn_inv :: "adjacency \<Rightarrow> string \<Rightarrow> string list \<Rightarrow> string list \<Rightarrow> string list \<Rightarrow> bool" where
  "conn_inv adj s V Q C =
     (s \<in> set V \<and> set Q \<subseteq> set V \<and> (\<forall>v \<in> set V. reachable adj s v)
      \<and> (\<forall>v \<in> set V. v \<in> set Q \<or> (set (neighbors adj v) \<subseteq> set V \<and> (v \<noteq> s \<longrightarrow> v \<in> set C)))
      \<and> set C \<subseteq> set V - {s})"

subsection \<open>Shortest distances in the undirected graph\<close>

text \<open>
  The nodes joined to \<open>u\<close> by an edge, whichever endpoint records it: the members of the
  neighbor set of \<open>u\<close>, and the keys whose neighbor set holds \<open>u\<close>.
\<close>

definition adjacent :: "adjacency \<Rightarrow> string \<Rightarrow> string list" where
  "adjacent adj u = neighbors adj u @ filter (\<lambda>a. u \<in> set (neighbors adj a)) (map fst adj)"

text \<open>The nodes at which a walk of exactly \<open>n\<close> edges from \<open>s\<close> can end.\<close>

fun walk_ends :: "adjacency \<Rightarrow> string \<Rightarrow> nat \<Rightarrow> string set" where
  "walk_ends adj s 0 = {s}"
| "walk_ends adj s (Suc n) = (\<Union>u \<in> walk_ends adj s n. set (adjacent adj u))"

text \<open>\<open>k\<close> is the shortest-path distance from \<open>s\<close> to \<open>v\<close>: a walk of \<open>k\<close> edges ends at \<open>v\<close>
  and no shorter one does.\<close>

definition hop_distance :: "adjacency \<Rightarrow> string \<Rightarrow> string \<Rightarrow> nat \<Rightarrow> bool" where
  "hop_distance adj s v k = (v \<in> walk_ends adj s k \<and> (\<forall>j < k. v \<notin> walk_ends adj s j))"

text \<open>The adjacency structure records every edge at both endpoints.\<close>

definition adj_symmetric :: "adjacency \<Rightarrow> bool" where
  "adj_symmetric adj =
     (\<forall>a \<in> fst ` set adj. \<forall>b \<in> set (neighbors adj a). a \<in> set (neighbors adj b))"

text \<open>
  The same notions along the neighbor sets only, with the distance as the integer the
  queue carries; on a symmetric structure they are the ones above.
\<close>

fun out_ends :: "adjacency \<Rightarrow> string \<Rightarrow> nat \<Rightarrow> string set" where
  "out_ends adj s 0 = {s}"
| "out_ends adj s (Suc n) = (\<Union>u \<in> out_ends adj s n. set (neighbors adj u))"

definition out_dist :: "adjacency \<Rightarrow> string \<Rightarrow> string \<Rightarrow> int \<Rightarrow> bool" where
  "out_dist adj s v d =
     (0 \<le> d \<and> v \<in> out_ends adj s (nat d) \<and> (\<forall>j < nat d. v \<notin> out_ends adj s j))"

text \<open>
  The loop invariant of \<open>findNeighborsByHop\<close>, in parts. Every queue entry is visited and
  carries its node's distance, which is within \<open>maxHops\<close> for all but the source.
\<close>

definition inv_queue :: "adjacency \<Rightarrow> int \<Rightarrow> string \<Rightarrow> string list \<Rightarrow> (string \<times> int) list \<Rightarrow> bool" where
  "inv_queue adj m s V Q =
     (\<forall>(v, d) \<in> set Q. v \<in> set V \<and> out_dist adj s v d \<and> (d = 0 \<or> d \<le> m))"

text \<open>The queue is ordered by distance and spans at most two consecutive distances.\<close>

definition inv_order :: "(string \<times> int) list \<Rightarrow> bool" where
  "inv_order Q = (sorted (map snd Q) \<and> (\<forall>e \<in> snd ` set Q. e \<le> snd (hd Q) + 1))"

text \<open>
  A node that has left the queue: its distance is at most that of every queue entry, it
  is in the hop set of its distance when that is in \<open>1..maxHops\<close>, and its neighbors are
  visited when its distance is below \<open>maxHops\<close>.
\<close>

definition node_done :: "adjacency \<Rightarrow> int \<Rightarrow> string \<Rightarrow> string list \<Rightarrow> (string \<times> int) list
    \<Rightarrow> hop_map \<Rightarrow> string \<Rightarrow> bool" where
  "node_done adj m s V Q R v =
     (\<exists>d. out_dist adj s v d \<and> (\<forall>e \<in> snd ` set Q. d \<le> e)
        \<and> (0 < d \<and> d \<le> m \<longrightarrow> v \<in> hop_set R d)
        \<and> (d < m \<longrightarrow> set (neighbors adj v) \<subseteq> set V))"

definition inv_done :: "adjacency \<Rightarrow> int \<Rightarrow> string \<Rightarrow> string list \<Rightarrow> (string \<times> int) list
    \<Rightarrow> hop_map \<Rightarrow> bool" where
  "inv_done adj m s V Q R = (\<forall>v \<in> set V. v \<in> fst ` set Q \<or> node_done adj m s V Q R v)"

text \<open>The hop sets hold only nodes at the distance of their hop.\<close>

definition inv_sound :: "adjacency \<Rightarrow> int \<Rightarrow> string \<Rightarrow> hop_map \<Rightarrow> bool" where
  "inv_sound adj m s R = (\<forall>h v. v \<in> hop_set R h \<longrightarrow> out_dist adj s v h \<and> 0 < h \<and> h \<le> m)"

text \<open>Every node no farther than the head of the queue is visited.\<close>

definition inv_front :: "adjacency \<Rightarrow> string \<Rightarrow> string list \<Rightarrow> (string \<times> int) list \<Rightarrow> bool" where
  "inv_front adj s V Q =
     (Q \<noteq> [] \<longrightarrow> (\<forall>u e. out_dist adj s u e \<and> e \<le> snd (hd Q) \<longrightarrow> u \<in> set V))"

text \<open>The result map has a key for each hop of \<open>1..maxHops\<close>.\<close>

definition inv_keys :: "int \<Rightarrow> hop_map \<Rightarrow> bool" where
  "inv_keys m R = (\<forall>h. 0 < h \<and> h \<le> m \<longrightarrow> map_of R h \<noteq> None)"

definition hops_inv :: "adjacency \<Rightarrow> int \<Rightarrow> string \<Rightarrow> string list \<Rightarrow> (string \<times> int) list
    \<Rightarrow> hop_map \<Rightarrow> bool" where
  "hops_inv adj m s V Q R =
     (s \<in> set V \<and> inv_queue adj m s V Q \<and> inv_order Q \<and> inv_done adj m s V Q R
      \<and> inv_sound adj m s R \<and> inv_front adj s V Q \<and> inv_keys m R)"

subsection \<open>buildFromNodes\<close>

text \<open>
  The node collection is typed \<open>any\<close>: the model keeps of each value what the code
  inspects. An element or a key of a link collection is a string, an object (with its
  \<open>id\<close> property when it has one; identifiers are strings, as \<open>GraphNode.id\<close> is), or
  another value (a number such as an array index, \<open>undefined\<close>, \<open>null\<close>).
\<close>

datatype link_value = LString string | LObject "string option" | LOther

text \<open>
  The value of \<open>node.forward\<close> or \<open>node.reverse\<close>: a falsy value; an \<open>Array\<close>, a \<open>Set\<close> or a
  \<open>Map\<close> (the collections with a \<open>forEach\<close>; a \<open>Map\<close> is given by its entries, key first);
  a plain object, given by its own keys; or a truthy primitive.
\<close>

datatype link_data =
    LinksFalsy
  | LinksArray "link_value list"
  | LinksSet "link_value list"
  | LinksMap "(link_value \<times> link_value) list"
  | LinksObject "string list"
  | LinksOther

text \<open>
  A node descriptor: a falsy value, or a value with the properties \<open>id\<close>, \<open>forward\<close> and
  \<open>reverse\<close> (a missing property is \<open>None\<close>, respectively \<open>LinksFalsy\<close>).
\<close>

datatype graph_node =
    NodeFalsy
  | Node (node_id: "string option") (forward: link_data) (reverse: link_data)

text \<open>The parameter \<open>nodes: Map<string, any> | any[] | Record<string, any>\<close>.\<close>

datatype node_collection =
    NodesMap "(string \<times> graph_node) list"
  | NodesArray "graph_node list"
  | NodesRecord "(string \<times> graph_node) list"

text \<open>
  The callback of \<open>linkData.forEach((target, key) => ...)\<close> in \<open>getLinks\<close>: what one call
  pushes on \<open>links\<close>. A string is truthy when it is not empty.
\<close>

definition link_of :: "link_value \<Rightarrow> link_value \<Rightarrow> string list" where
  "link_of target key =
     (case key of
        LString k \<Rightarrow>
          if CHR ''/'' \<in> set k then [k]
          else (case target of
                  LString t \<Rightarrow> [t]
                | LObject (Some i) \<Rightarrow> if i \<noteq> [] then [i] else []
                | _ \<Rightarrow> [])
      | _ \<Rightarrow>
          (case target of
             LString t \<Rightarrow> [t]
           | LObject (Some i) \<Rightarrow> if i \<noteq> [] then [i] else []
           | _ \<Rightarrow> []))"

text \<open>
  \<open>getLinks(node, direction)\<close>, on the value of \<open>node[direction]\<close>. \<open>forEach\<close> passes the
  index as key for an array, the element itself for a set, the entry's key for a map.
\<close>

fun getLinks :: "link_data \<Rightarrow> string list" where
  "getLinks LinksFalsy = []"
| "getLinks (LinksArray xs) = concat (map (\<lambda>target. link_of target LOther) xs)"
| "getLinks (LinksSet xs) = concat (map (\<lambda>target. link_of target target) xs)"
| "getLinks (LinksMap kvs) = concat (map (\<lambda>(key, target). link_of target key) kvs)"
| "getLinks (LinksObject ks) = ks"
| "getLinks LinksOther = []"

text \<open>
  \<open>this.adjacencyList.get(k)!.add(v)\<close>: raises when \<open>k\<close> is not a key (the \<open>!\<close> is a
  compile-time assertion only).
\<close>

definition add_neighbor :: "adjacency \<Rightarrow> string \<Rightarrow> string \<Rightarrow> error + adjacency" where
  "add_neighbor adj k v =
     (case map_of adj k of
        None \<Rightarrow> Inl TypeError
      | Some s \<Rightarrow> Inr (map_set adj k (set_add s v)))"

text \<open>\<open>if (!this.adjacencyList.has(k)) this.adjacencyList.set(k, new Set())\<close>\<close>

definition ensure_key :: "adjacency \<Rightarrow> string \<Rightarrow> adjacency" where
  "ensure_key adj k = (if \<not> map_has adj k then map_set adj k [] else adj)"

definition addEdge :: "adjacency \<Rightarrow> string \<Rightarrow> string \<Rightarrow> error + adjacency" where
  "addEdge adj from_id to_id =
     (let adj1 = ensure_key adj from_id;
          adj2 = ensure_key adj1 to_id
      in case add_neighbor adj2 from_id to_id of
           Inl e \<Rightarrow> Inl e
         | Inr adj3 \<Rightarrow> add_neighbor adj3 to_id from_id)"

text \<open>The local \<open>nodeEntries\<close> of \<open>buildFromNodes\<close>; an array element is kept when it is
  truthy and its \<open>id\<close> is.\<close>

fun array_entry :: "graph_node \<Rightarrow> (string \<times> graph_node) list" where
  "array_entry NodeFalsy = []"
| "array_entry (Node None f r) = []"
| "array_entry (Node (Some i) f r) = (if i \<noteq> [] then [(i, Node (Some i) f r)] else [])"

fun nodeEntries :: "node_collection \<Rightarrow> (string \<times> graph_node) list" where
  "nodeEntries (NodesMap m) = m"
| "nodeEntries (NodesArray xs) = concat (map array_entry xs)"
| "nodeEntries (NodesRecord r) = r"

text \<open>
  The calls of \<open>addEdge\<close> that the second \<open>nodeEntries.forEach\<close> makes for one entry, in
  order: \<open>addEdge(id, targetId)\<close> for each forward link, then \<open>addEdge(sourceId, id)\<close> for
  each reverse link; none for a falsy node.
\<close>

fun edge_calls :: "string \<times> graph_node \<Rightarrow> (string \<times> string) list" where
  "edge_calls (i, NodeFalsy) = []"
| "edge_calls (i, Node _ f r) =
     map (\<lambda>targetId. (i, targetId)) (getLinks f) @ map (\<lambda>sourceId. (sourceId, i)) (getLinks r)"

text \<open>A sequence of \<open>addEdge\<close> calls; a raise ends it.\<close>

fun addEdges :: "(string \<times> string) list \<Rightarrow> adjacency \<Rightarrow> error + adjacency" where
  "addEdges [] adj = Inr adj"
| "addEdges ((a, b) # es) adj =
     (case addEdge adj a b of Inl e \<Rightarrow> Inl e | Inr adj' \<Rightarrow> addEdges es adj')"

text \<open>
  \<open>buildFromNodes(nodes)\<close>: the value of \<open>adjacencyList\<close> when it returns. The map is
  cleared first, so its value before the call plays no part.
\<close>

definition buildFromNodes :: "node_collection \<Rightarrow> error + adjacency" where
  "buildFromNodes nodes =
     (let entries = nodeEntries nodes;
          adj0 = fold (\<lambda>(i, node) adj. ensure_key adj i) entries []
      in addEdges (concat (map edge_calls entries)) adj0)"

section \<open>types.ts\<close>

datatype NodeShape = CIRCLE | SQUARE | DIAMOND | TRIANGLE | HEXAGON

datatype EdgeColorMode = INHERIT | BY_HOP | SINGLE

text \<open>\<open>type RuleType = 'tag' | 'folder' | 'file'\<close>\<close>

datatype RuleType = Tag | Folder | File

text \<open>
  \<open>interface StyleRule\<close>. The optional fields \<open>color\<close>, \<open>shape\<close> and \<open>size\<close> are \<open>None\<close> when
  absent; sizes, opacities and widths are real numbers.
\<close>

record StyleRule =
  rule_id :: string
  rule_type :: RuleType
  pattern :: string
  rule_color :: "string option"
  rule_shape :: "NodeShape option"
  rule_size :: "real option"
  enabled :: bool

text \<open>\<open>interface GraphStyleSettings\<close>: the fields that the style computation reads.\<close>

record GraphStyleSettings =
  maxHops :: int
  selectedNodeColor :: string
  hopColors :: "string list"
  disconnectedOpacity :: real
  defaultNodeShape :: NodeShape
  defaultNodeSize :: real
  activeNodeSize :: real
  edgeColorMode :: EdgeColorMode
  edgeColor :: string
  highlightedEdgeColor :: string
  hopEdgeColors :: "string list"
  activeEdgeWidth :: real
  defaultEdgeWidth :: real
  disconnectedEdgeWidth :: real
  rules :: "StyleRule list"

definition DEFAULT_SETTINGS :: GraphStyleSettings where
  "DEFAULT_SETTINGS = \<lparr>
     maxHops = 3,
     selectedNodeColor = ''#FF6B6B'',
     hopColors = [''#4ECDC4'', ''#45B7D1'', ''#96CEB4'', ''#FFEAA7'', ''#DDA0DD''],
     disconnectedOpacity = 0.15,
     defaultNodeShape = CIRCLE,
     defaultNodeSize = 1.0,
     activeNodeSize = 1.1,
     edgeColorMode = SINGLE,
     edgeColor = ''#888888'',
     highlightedEdgeColor = ''#4ECDC4'',
     hopEdgeColors = [''#4ECDC4'', ''#45B7D1'', ''#96CEB4'', ''#FFEAA7'', ''#DDA0DD''],
     activeEdgeWidth = 2.0,
     defaultEdgeWidth = 1.0,
     disconnectedEdgeWidth = 0.5,
     rules = [] \<rparr>"

text \<open>
  A tint is a JavaScript number that \<open>parseInt\<close> returned or a literal: an integer that
  is a double, the negative zero, \<open>NaN\<close> or an infinity.
\<close>

datatype js_number = Number int | NegZero | NaN | PosInfinity | NegInfinity

text \<open>\<open>interface NodeStyleResult\<close>, and the value type of the map \<open>edgeStyles\<close>.\<close>

record NodeStyleResult =
  tint :: js_number
  alpha :: real
  node_shape :: "NodeShape option"
  node_size :: "real option"

record EdgeStyle =
  edge_tint :: js_number
  edge_alpha :: real
  edge_width :: real

section \<open>graphStyler.ts\<close>

subsection \<open>JavaScript operators on optional strings\<close>

text \<open>
  A value of type \<open>string | undefined\<close> (or \<open>string | null\<close>) is a \<open>string option\<close>. It is
  truthy when it is a string that is not empty; \<open>a || b\<close> is \<open>a\<close> when \<open>a\<close> is truthy and
  \<open>b\<close> otherwise. Reading an array out of range gives \<open>undefined\<close>.
\<close>

definition truthy :: "string option \<Rightarrow> bool" where
  "truthy a = (case a of None \<Rightarrow> False | Some s \<Rightarrow> s \<noteq> [])"

definition or_else :: "string option \<Rightarrow> string option \<Rightarrow> string option" where
  "or_else a b = (if truthy a then a else b)"

definition at_index :: "'a list \<Rightarrow> int \<Rightarrow> 'a option" where
  "at_index xs i = (if 0 \<le> i \<and> i < int (length xs) then Some (xs ! nat i) else None)"

subsection \<open>parseColor\<close>

text \<open>
  The white space that \<open>parseInt\<close> skips (\<open>StrWhiteSpaceChar\<close> of ECMAScript), each
  character as the bytes of its UTF-8 encoding: U+0009 to U+000D, U+0020, U+00A0, U+1680,
  U+2000 to U+200A, U+2028, U+2029, U+202F, U+205F, U+3000 and U+FEFF.
\<close>

definition white_space :: "string list" where
  "white_space =
     [[CHR 0x09], [CHR 0x0A], [CHR 0x0B], [CHR 0x0C], [CHR 0x0D], [CHR 0x20],
      [CHR 0xC2, CHR 0xA0],
      [CHR 0xE1, CHR 0x9A, CHR 0x80],
      [CHR 0xE2, CHR 0x80, CHR 0x80], [CHR 0xE2, CHR 0x80, CHR 0x81],
      [CHR 0xE2, CHR 0x80, CHR 0x82], [CHR 0xE2, CHR 0x80, CHR 0x83],
      [CHR 0xE2, CHR 0x80, CHR 0x84], [CHR 0xE2, CHR 0x80, CHR 0x85],
      [CHR 0xE2, CHR 0x80, CHR 0x86], [CHR 0xE2, CHR 0x80, CHR 0x87],
      [CHR 0xE2, CHR 0x80, CHR 0x88], [CHR 0xE2, CHR 0x80, CHR 0x89],
      [CHR 0xE2, CHR 0x80, CHR 0x8A],
      [CHR 0xE2, CHR 0x80, CHR 0xA8], [CHR 0xE2, CHR 0x80, CHR 0xA9],
      [CHR 0xE2, CHR 0x80, CHR 0xAF],
      [CHR 0xE2, CHR 0x81, CHR 0x9F],
      [CHR 0xE3, CHR 0x80, CHR 0x80],
      [CHR 0xEF, CHR 0xBB, CHR 0xBF]]"

lemma white_space_nonempty: "w \<in> set white_space \<Longrightarrow> w \<noteq> []"
  by (auto simp: white_space_def)

text \<open>The string without its leading white space.\<close>

function skip_space :: "string \<Rightarrow> string" where
  "skip_space s =
     (case find (\<lambda>w. prefix w s) white_space of
        None \<Rightarrow> s
      | Some w \<Rightarrow> skip_space (drop (length w) s))"
  by pat_completeness auto
termination
proof (relation "measure length", goal_cases)
  case 1
  show ?case by simp
next
  case (2 s w)
  then have "w \<in> set white_space" and p: "prefix w s"
    by (auto simp: find_Some_iff)
  then have "w \<noteq> []" by (simp add: white_space_nonempty)
  with p have "s \<noteq> []" by auto
  with \<open>w \<noteq> []\<close> show ?case by simp
qed

declare skip_space.simps [simp del]

text \<open>The value of a hexadecimal digit, by its character code.\<close>

definition hex_digit :: "char \<Rightarrow> int option" where
  "hex_digit c =
     (let n = (of_char c :: nat) in
      if 48 \<le> n \<and> n \<le> 57 then Some (int n - 48)
      else if 97 \<le> n \<and> n \<le> 102 then Some (int n - 87)
      else if 65 \<le> n \<and> n \<le> 70 then Some (int n - 55)
      else None)"

definition hex_value :: "string \<Rightarrow> int" where
  "hex_value ds = foldl (\<lambda>acc c. 16 * acc + (case hex_digit c of Some d \<Rightarrow> d | None \<Rightarrow> 0)) 0 ds"

text \<open>The number of binary digits of a natural number.\<close>

fun bit_length :: "nat \<Rightarrow> nat" where
  "bit_length n = (if n = 0 then 0 else Suc (bit_length (n div 2)))"

declare bit_length.simps [simp del]

text \<open>
  The Number value of a non-negative integer: the nearest IEEE double, ties to the even
  significand of 53 bits; \<open>None\<close> when that is beyond the largest double (the Number is
  then \<open>Infinity\<close>).
\<close>

definition to_double :: "int \<Rightarrow> int option" where
  "to_double n =
     (if n < 2 ^ 53 then Some n
      else
        (let e = bit_length (nat n) - 53;
             q = n div 2 ^ e;
             r = n mod 2 ^ e;
             m = (if 2 ^ e < 2 * r \<or> (2 * r = 2 ^ e \<and> odd q) then q + 1 else q)
         in if m * 2 ^ e < 2 ^ 1024 then Some (m * 2 ^ e) else None))"

text \<open>The Number of sign and magnitude; the zero after a minus sign is \<open>-0\<close>.\<close>

definition signed_number :: "bool \<Rightarrow> int \<Rightarrow> js_number" where
  "signed_number negative n =
     (if n = 0 then (if negative then NegZero else Number 0)
      else (case to_double n of
              Some v \<Rightarrow> Number (if negative then - v else v)
            | None \<Rightarrow> if negative then NegInfinity else PosInfinity))"

text \<open>
  \<open>parseInt(s, 16)\<close>, after ECMAScript: leading white space is skipped, then an optional
  sign and an optional prefix \<open>0x\<close> or \<open>0X\<close>; the longest run of hexadecimal digits that
  follows is read in base 16 and gives the Number, and there is \<open>NaN\<close> when the run is
  empty.
\<close>

definition parseInt16 :: "string \<Rightarrow> js_number" where
  "parseInt16 s =
     (let s1 = skip_space s;
          negative = (take 1 s1 = ''-'');
          s2 = (if take 1 s1 = ''-'' \<or> take 1 s1 = ''+'' then drop 1 s1 else s1);
          s3 = (if take 2 s2 = ''0x'' \<or> take 2 s2 = ''0X'' then drop 2 s2 else s2);
          ds = takeWhile (\<lambda>c. hex_digit c \<noteq> None) s3
      in if ds = [] then NaN else signed_number negative (hex_value ds))"

text \<open>\<open>parseColor(color)\<close> on a string; \<open>color.slice(1)\<close> drops the first character.\<close>

definition parseColor :: "string \<Rightarrow> js_number" where
  "parseColor color =
     (if prefix ''#'' color then parseInt16 (drop 1 color) else Number 0xFFFFFF)"

text \<open>
  A call \<open>this.parseColor(color)\<close>. The parameter is typed \<open>string\<close>, but callers pass the
  value of an \<open>||\<close> chain, which can be \<open>undefined\<close>: \<open>color.startsWith\<close> then raises.
\<close>

definition call_parseColor :: "string option \<Rightarrow> error + js_number" where
  "call_parseColor color =
     (case color of None \<Rightarrow> Inl TypeError | Some c \<Rightarrow> Inr (parseColor c))"

text \<open>
  Base 16 as it is written: the hexadecimal digits are the characters of
  \<open>0123456789abcdef\<close> and \<open>0123456789ABCDEF\<close>, each worth its position there, and a run of
  digits is worth sixteen times the run without its last digit, plus that digit.
\<close>

definition hex_chars :: string where
  "hex_chars = ''0123456789abcdefABCDEF''"

fun position :: "'a \<Rightarrow> 'a list \<Rightarrow> nat" where
  "position x [] = 0"
| "position x (y # ys) = (if x = y then 0 else Suc (position x ys))"

definition base16_digit :: "char \<Rightarrow> int" where
  "base16_digit c =
     (if c \<in> set ''0123456789abcdef'' then int (position c ''0123456789abcdef'')
      else int (position c ''0123456789ABCDEF''))"

fun base16_rev :: "string \<Rightarrow> int" where
  "base16_rev [] = 0"
| "base16_rev (c # cs) = base16_digit c + 16 * base16_rev cs"

definition base16 :: "string \<Rightarrow> int" where
  "base16 ds = base16_rev (rev ds)"

text \<open>
  A non-negative integer that is a double: a significand below \<open>2^53\<close> times a power of
  two, below \<open>2^1024\<close>.
\<close>

definition is_double :: "int \<Rightarrow> bool" where
  "is_double v = ((\<exists>m e. v = m * 2 ^ e \<and> 0 \<le> m \<and> m < 2 ^ 53) \<and> v < 2 ^ 1024)"

text \<open>
  How \<open>parseInt\<close> divides a string in base 16: white space, at most one sign, at most
  one prefix \<open>0x\<close> or \<open>0X\<close>, the longest run of hexadecimal digits, and a rest that is not
  read. Each part is as long as it can be: what follows the white space does not start
  with white space, a missing sign or prefix is not there, and the rest does not start with
  a digit.
\<close>

definition hex_layout :: "string \<Rightarrow> string list \<Rightarrow> string \<Rightarrow> string \<Rightarrow> string \<Rightarrow> string \<Rightarrow> bool"
  where
  "hex_layout s wl sign pfx ds tail \<longleftrightarrow>
     s = concat wl @ sign @ pfx @ ds @ tail
     \<and> set wl \<subseteq> set white_space
     \<and> (\<forall>w \<in> set white_space. \<not> prefix w (sign @ pfx @ ds @ tail))
     \<and> sign \<in> {[], ''-'', ''+''}
     \<and> (sign = [] \<longrightarrow> \<not> prefix ''-'' (pfx @ ds @ tail) \<and> \<not> prefix ''+'' (pfx @ ds @ tail))
     \<and> pfx \<in> {[], ''0x'', ''0X''}
     \<and> (pfx = [] \<longrightarrow> \<not> prefix ''0x'' (ds @ tail) \<and> \<not> prefix ''0X'' (ds @ tail))
     \<and> set ds \<subseteq> set hex_chars
     \<and> (tail = [] \<or> hd tail \<notin> set hex_chars)"

subsection \<open>getStyleFromRules\<close>

text \<open>
  What the vault and the metadata cache know of a path: whether
  \<open>getAbstractFileByPath\<close> gives a \<open>TFile\<close>, whether \<open>getFileCache\<close> gives a cache, and in
  the cache the inline tags (\<open>cache.tags\<close>, each with its \<open>tag\<close> string) and the value of
  \<open>cache.frontmatter?.tags\<close>: absent, an array of strings or a single string.
\<close>

datatype frontmatter_tags = TagsAbsent | TagsArray "string list" | TagsString string

datatype file_cache =
    NotAFile
  | NoCache
  | Cache (inline_tags: "string list option") (frontmatter: frontmatter_tags)

text \<open>\<open>t.startsWith('#') ? t : '#' + t\<close>\<close>

definition normalize_tag :: "string \<Rightarrow> string" where
  "normalize_tag t = (if prefix ''#'' t then t else ''#'' @ t)"

text \<open>\<open>hasTag(file, tagPattern)\<close>, on what is known of the file.\<close>

fun hasTag :: "file_cache \<Rightarrow> string \<Rightarrow> bool" where
  "hasTag NotAFile tagPattern = False"
| "hasTag NoCache tagPattern = False"
| "hasTag (Cache inline fm) tagPattern =
     (let normalizedPattern = normalize_tag tagPattern in
      (case inline of
         None \<Rightarrow> False
       | Some tags \<Rightarrow>
           (\<exists>t \<in> set tags. t = normalizedPattern \<or> prefix (normalizedPattern @ ''/'') t))
      \<or> (let fmTags = (case fm of
                          TagsAbsent \<Rightarrow> []
                        | TagsArray ts \<Rightarrow> ts
                        | TagsString t \<Rightarrow> if t \<noteq> [] then [t] else [])
          in \<exists>t \<in> set fmTags. normalize_tag t = normalizedPattern
               \<or> prefix (normalizedPattern @ ''/'') (normalize_tag t)))"

text \<open>The \<open>switch (rule.type)\<close> of \<open>getStyleFromRules\<close>: the value of \<open>matches\<close>.\<close>

definition rule_matches :: "(string \<Rightarrow> file_cache) \<Rightarrow> StyleRule \<Rightarrow> string \<Rightarrow> bool" where
  "rule_matches vault rule nodeId =
     (case rule_type rule of
        Folder \<Rightarrow> prefix (pattern rule) nodeId
      | Tag \<Rightarrow> hasTag (vault nodeId) (pattern rule)
      | File \<Rightarrow>
          nodeId = pattern rule
          \<or> suffix (''/'' @ pattern rule) nodeId
          \<or> nodeId = pattern rule @ ''.md''
          \<or> suffix (''/'' @ pattern rule @ ''.md'') nodeId)"

text \<open>The value \<open>getStyleFromRules\<close> returns: \<open>{ color?, shape?, size? }\<close>.\<close>

record RuleStyle =
  style_color :: "string option"
  style_shape :: "NodeShape option"
  style_size :: "real option"

definition rule_style :: "StyleRule \<Rightarrow> RuleStyle" where
  "rule_style rule =
     \<lparr>style_color = rule_color rule, style_shape = rule_shape rule, style_size = rule_size rule\<rparr>"

text \<open>The loop \<open>for (const rule of this.settings.rules)\<close>.\<close>

fun rules_loop :: "(string \<Rightarrow> file_cache) \<Rightarrow> string \<Rightarrow> StyleRule list \<Rightarrow> RuleStyle option" where
  "rules_loop vault nodeId [] = None"
| "rules_loop vault nodeId (rule # rest) =
     (if \<not> enabled rule then rules_loop vault nodeId rest
      else if rule_matches vault rule nodeId then Some (rule_style rule)
      else rules_loop vault nodeId rest)"

definition getStyleFromRules :: "GraphStyleSettings \<Rightarrow> (string \<Rightarrow> file_cache) \<Rightarrow> string
    \<Rightarrow> RuleStyle option" where
  "getStyleFromRules settings vault nodeId =
     (if rules settings = [] then None else rules_loop vault nodeId (rules settings))"

subsection \<open>applyStyles: the style of one node\<close>

text \<open>\<open>neighborsByHop.get(hop)?.has(nodeId)\<close>\<close>

definition hop_has :: "hop_map \<Rightarrow> int \<Rightarrow> string \<Rightarrow> bool" where
  "hop_has neighborsByHop hop nodeId =
     (case map_of neighborsByHop hop of None \<Rightarrow> False | Some s \<Rightarrow> nodeId \<in> set s)"

text \<open>
  The hop level of a node (lines 328 to 343): \<open>0\<close> for the active node, the first hop of
  \<open>1..maxHops\<close> whose set holds the node, \<open>maxHops + 1\<close> for a connected node beyond, \<open>-1\<close>
  otherwise and when no active node is known.
\<close>

definition hopLevelOf :: "GraphStyleSettings \<Rightarrow> string option \<Rightarrow> hop_map \<Rightarrow> string list \<Rightarrow> string
    \<Rightarrow> int" where
  "hopLevelOf settings activeNodeId neighborsByHop allConnected nodeId =
     (if truthy activeNodeId then
        (if Some nodeId = activeNodeId then 0
         else (case find (\<lambda>hop. hop_has neighborsByHop hop nodeId) [1..maxHops settings] of
                 Some hop \<Rightarrow> hop
               | None \<Rightarrow> if nodeId \<in> set allConnected then maxHops settings + 1 else - 1))
      else - 1)"

text \<open>
  The \<open>if\<close> chain of lines 349 to 370: the values of \<open>color\<close>, \<open>alpha\<close> and \<open>size\<close> after
  it (\<open>size\<close> is assigned for the active node only).
\<close>

definition color_alpha_size :: "GraphStyleSettings \<Rightarrow> string option \<Rightarrow> string \<Rightarrow> int
    \<Rightarrow> RuleStyle option \<Rightarrow> string option \<times> real \<times> real option" where
  "color_alpha_size settings activeNodeId nodeId hopLevel ruleStyle =
     (let ruleColor = (case ruleStyle of None \<Rightarrow> None | Some r \<Rightarrow> style_color r) in
      if truthy activeNodeId \<and> Some nodeId = activeNodeId then
        (Some (selectedNodeColor settings), 1.0, Some (activeNodeSize settings))
      else if 0 < hopLevel \<and> hopLevel \<le> maxHops settings then
        (or_else (or_else ruleColor (at_index (hopColors settings) (hopLevel - 1)))
           (at_index (hopColors settings) 0), 1.0, None)
      else if \<not> truthy activeNodeId then
        (or_else ruleColor (at_index (hopColors settings) 0), 1.0, None)
      else if hopLevel = - 1 then
        (or_else ruleColor (Some ''#888888''), disconnectedOpacity settings, None)
      else
        (or_else ruleColor (Some ''#888888''), 0.5, None))"

text \<open>
  Lines 346 to 384 for one node, given its hop level and the rule style: the entry
  stored in \<open>nodeStyles\<close>, or the raise of the call of \<open>parseColor\<close>. A number is truthy when it is
  not zero.
\<close>

definition nodeStyle :: "GraphStyleSettings \<Rightarrow> string option \<Rightarrow> string \<Rightarrow> int
    \<Rightarrow> RuleStyle option \<Rightarrow> error + NodeStyleResult" where
  "nodeStyle settings activeNodeId nodeId hopLevel ruleStyle =
     (case color_alpha_size settings activeNodeId nodeId hopLevel ruleStyle of
        (color, alpha_value, size0) \<Rightarrow>
          (let shape = (case ruleStyle of
                          None \<Rightarrow> defaultNodeShape settings
                        | Some r \<Rightarrow> (case style_shape r of
                                       None \<Rightarrow> defaultNodeShape settings
                                     | Some sh \<Rightarrow> sh));
               ruleSize = (case ruleStyle of None \<Rightarrow> None | Some r \<Rightarrow> style_size r);
               size_value = (case size0 of
                               Some z \<Rightarrow> z
                             | None \<Rightarrow> (case ruleSize of
                                          None \<Rightarrow> defaultNodeSize settings
                                        | Some z \<Rightarrow> if z \<noteq> 0 then z
                                                    else defaultNodeSize settings))
           in case call_parseColor color of
                Inl e \<Rightarrow> Inl e
              | Inr t \<Rightarrow> Inr \<lparr>tint = t, alpha = alpha_value, node_shape = Some shape,
                              node_size = Some size_value\<rparr>))"

text \<open>
  The body of \<open>nodeEntries.forEach\<close> in \<open>applyStyles\<close> for one node identifier: hop level,
  rule style, then the style. (The writes to the host's display objects are not
  modelled.)
\<close>

definition applyStyles_node :: "GraphStyleSettings \<Rightarrow> (string \<Rightarrow> file_cache) \<Rightarrow> string option
    \<Rightarrow> hop_map \<Rightarrow> string list \<Rightarrow> string \<Rightarrow> error + NodeStyleResult" where
  "applyStyles_node settings vault activeNodeId neighborsByHop allConnected nodeId =
     nodeStyle settings activeNodeId nodeId
       (hopLevelOf settings activeNodeId neighborsByHop allConnected nodeId)
       (getStyleFromRules settings vault nodeId)"

subsection \<open>applyEdgeStyles: the style of one link\<close>

text \<open>\<open>isInRange(nodeId, neighborsByHop)\<close>; \<open>nodeId\<close> is \<open>link.source?.id\<close> or
  \<open>link.target?.id\<close> and can be \<open>undefined\<close>.\<close>

definition isInRange :: "GraphStyleSettings \<Rightarrow> string option \<Rightarrow> hop_map \<Rightarrow> bool" where
  "isInRange settings nodeId neighborsByHop =
     (case nodeId of
        None \<Rightarrow> False
      | Some i \<Rightarrow> i \<noteq> [] \<and> (\<exists>hop \<in> set [1..maxHops settings]. hop_has neighborsByHop hop i))"

text \<open>The key \<open>sourceId || ''\<close> of the lookups in \<open>nodeStyles\<close> and \<open>nodeHopLevels\<close>.\<close>

definition id_or_empty :: "string option \<Rightarrow> string" where
  "id_or_empty nodeId = (case nodeId of None \<Rightarrow> [] | Some i \<Rightarrow> i)"

text \<open>
  \<open>Math.min(sourceHop > 0 ? sourceHop : Infinity, targetHop > 0 ? targetHop : Infinity)\<close>;
  \<open>None\<close> is \<open>Infinity\<close>.
\<close>

definition minHopOf :: "int \<Rightarrow> int \<Rightarrow> int option" where
  "minHopOf sourceHop targetHop =
     (if 0 < sourceHop then
        (if 0 < targetHop then Some (min sourceHop targetHop) else Some sourceHop)
      else if 0 < targetHop then Some targetHop else None)"

text \<open>
  The three values \<open>tint\<close>, \<open>alpha\<close> and \<open>width\<close> of a link, with the raise of \<open>parseColor\<close>
  passed on.
\<close>

definition edge_result :: "error + js_number \<Rightarrow> real \<Rightarrow> real \<Rightarrow> error + EdgeStyle" where
  "edge_result t a w =
     (case t of
        Inl e \<Rightarrow> Inl e
      | Inr n \<Rightarrow> Inr \<lparr>edge_tint = n, edge_alpha = a, edge_width = w\<rparr>)"

text \<open>
  The body of \<open>renderer.links.forEach\<close> in \<open>applyEdgeStyles\<close> for one link, given the
  identifiers of its endpoints and the maps \<open>nodeStyles\<close> and \<open>nodeHopLevels\<close> that
  \<open>applyStyles\<close> filled: the entry stored in \<open>edgeStyles\<close>.
\<close>

definition edgeStyle :: "GraphStyleSettings \<Rightarrow> string option \<Rightarrow> hop_map
    \<Rightarrow> (string \<rightharpoonup> NodeStyleResult) \<Rightarrow> (string \<rightharpoonup> int)
    \<Rightarrow> string option \<Rightarrow> string option \<Rightarrow> error + EdgeStyle" where
  "edgeStyle settings activeNodeId neighborsByHop nodeStyles nodeHopLevels sourceId targetId =
     (let sourceIsActive = (truthy activeNodeId \<and> sourceId = activeNodeId);
          targetIsActive = (truthy activeNodeId \<and> targetId = activeNodeId);
          sourceInRange = isInRange settings sourceId neighborsByHop;
          targetInRange = isInRange settings targetId neighborsByHop
      in case edgeColorMode settings of
        INHERIT \<Rightarrow>
          (let sourceStyle = nodeStyles (id_or_empty sourceId);
               t = (case sourceStyle of
                      None \<Rightarrow> call_parseColor (Some ''#888888'')
                    | Some st \<Rightarrow> Inr (tint st))
           in if sourceIsActive \<or> targetIsActive then
                edge_result t 1.0 (activeEdgeWidth settings)
              else if sourceInRange \<and> targetInRange then
                edge_result t
                  (min (case sourceStyle of None \<Rightarrow> 0.8 | Some st \<Rightarrow> alpha st) 0.8)
                  (defaultEdgeWidth settings)
              else
                edge_result t (disconnectedOpacity settings) (disconnectedEdgeWidth settings))
      | BY_HOP \<Rightarrow>
          (let sourceHop = (case nodeHopLevels (id_or_empty sourceId) of
                              None \<Rightarrow> - 1 | Some h \<Rightarrow> h);
               targetHop = (case nodeHopLevels (id_or_empty targetId) of
                              None \<Rightarrow> - 1 | Some h \<Rightarrow> h)
           in if sourceIsActive \<or> targetIsActive then
                edge_result
                  (call_parseColor (or_else (at_index (hopEdgeColors settings) 0)
                     (Some (edgeColor settings))))
                  1.0 (activeEdgeWidth settings)
              else
                (case minHopOf sourceHop targetHop of
                   Some minHop \<Rightarrow>
                     if minHop \<le> maxHops settings then
                       edge_result
                         (call_parseColor (or_else (at_index (hopEdgeColors settings) (minHop - 1))
                            (Some (edgeColor settings))))
                         0.7 (defaultEdgeWidth settings)
                     else
                       edge_result (call_parseColor (Some (edgeColor settings)))
                         0.4 (disconnectedEdgeWidth settings)
                 | None \<Rightarrow>
                     edge_result (call_parseColor (Some (edgeColor settings)))
                       (disconnectedOpacity settings) (disconnectedEdgeWidth settings)))
      | SINGLE \<Rightarrow>
          (if sourceIsActive \<or> targetIsActive then
             edge_result (call_parseColor (Some (highlightedEdgeColor settings)))
               1.0 (activeEdgeWidth settings)
           else if sourceInRange \<and> targetInRange then
             edge_result (call_parseColor (Some (edgeColor settings))) 0.8 (defaultEdgeWidth settings)
           else
             edge_result (call_parseColor (Some (edgeColor settings)))
               (disconnectedOpacity settings) (disconnectedEdgeWidth settings)))"

subsection \<open>Example rules\<close>

text \<open>
  Three rules for the concrete instances below: a disabled file rule, a folder rule for
  \<open>Projects/\<close> with the color \<open>#112233\<close>, and a file rule with color, shape and size.
\<close>

definition example_rules :: "StyleRule list" where
  "example_rules =
     [\<lparr>rule_id = ''r0'', rule_type = File, pattern = ''X'', rule_color = Some ''#000001'',
        rule_shape = None, rule_size = None, enabled = False\<rparr>,
      \<lparr>rule_id = ''r1'', rule_type = Folder, pattern = ''Projects/'',
        rule_color = Some ''#112233'', rule_shape = None, rule_size = None, enabled = True\<rparr>,
      \<lparr>rule_id = ''r2'', rule_type = File, pattern = ''X.md'', rule_color = Some ''#445566'',
        rule_shape = Some SQUARE, rule_size = Some 2, enabled = True\<rparr>]"

text \<open>
  Seven rules and a vault for the priority order: an enabled folder rule for \<open>Archive/\<close>,
  a disabled file rule for \<open>X\<close>, enabled tag rules for \<open>urgent\<close> and \<open>work\<close>, an enabled
  folder rule for \<open>Projects/\<close>, an enabled file rule for \<open>Z\<close> and an enabled tag rule for
  \<open>#draft\<close>; each carries a color, a shape and a size of its own. In the vault
  \<open>Projects/X.md\<close> has the inline tag \<open>#work/urgent\<close> and the frontmatter tag \<open>draft\<close>,
  \<open>Notes/X.md\<close> the frontmatter tag \<open>workshop\<close>, \<open>Inbox/a.md\<close> the frontmatter tags \<open>todo\<close>
  and \<open>draft/v2\<close>, \<open>Inbox/b.md\<close> the frontmatter tag \<open>#draft\<close>, \<open>Inbox/c.md\<close> has no cache,
  and no other path is a file.
\<close>

definition priority_rules :: "StyleRule list" where
  "priority_rules =
     [\<lparr>rule_id = ''p0'', rule_type = Folder, pattern = ''Archive/'',
        rule_color = Some ''#000001'', rule_shape = Some HEXAGON, rule_size = Some 0.5,
        enabled = True\<rparr>,
      \<lparr>rule_id = ''p1'', rule_type = File, pattern = ''X'',
        rule_color = Some ''#000002'', rule_shape = Some TRIANGLE, rule_size = Some 1.5,
        enabled = False\<rparr>,
      \<lparr>rule_id = ''p2'', rule_type = Tag, pattern = ''urgent'',
        rule_color = Some ''#000003'', rule_shape = Some CIRCLE, rule_size = Some 0.75,
        enabled = True\<rparr>,
      \<lparr>rule_id = ''p3'', rule_type = Tag, pattern = ''work'',
        rule_color = Some ''#445566'', rule_shape = Some SQUARE, rule_size = Some 2,
        enabled = True\<rparr>,
      \<lparr>rule_id = ''p4'', rule_type = Folder, pattern = ''Projects/'',
        rule_color = Some ''#112233'', rule_shape = Some DIAMOND, rule_size = Some 1.25,
        enabled = True\<rparr>,
      \<lparr>rule_id = ''p5'', rule_type = File, pattern = ''Z'',
        rule_color = Some ''#000005'', rule_shape = Some TRIANGLE, rule_size = Some 1.75,
        enabled = True\<rparr>,
      \<lparr>rule_id = ''p6'', rule_type = Tag, pattern = ''#draft'',
        rule_color = Some ''#000006'', rule_shape = Some HEXAGON, rule_size = Some 0.6,
        enabled = True\<rparr>]"

definition example_vault :: "string \<Rightarrow> file_cache" where
  "example_vault path =
     (if path = ''Projects/X.md'' then Cache (Some [''#work/urgent'']) (TagsArray [''draft''])
      else if path = ''Notes/X.md'' then Cache None (TagsString ''workshop'')
      else if path = ''Inbox/a.md'' then Cache (Some []) (TagsArray [''todo'', ''draft/v2''])
      else if path = ''Inbox/b.md'' then Cache None (TagsString ''#draft'')
      else if path = ''Inbox/c.md'' then NoCache
      else NotAFile)"



section \<open>Properties of the distance engine\<close>

lemma map_of_map_set: "map_of (map_set m k v) = (map_of m)(k \<mapsto> v)"
  by (simp add: map_set_def update_conv')

lemma map_of_init_hops:
  "map_of (fold (\<lambda>hop r. map_set r hop []) hs r0) h
     = (if h \<in> set hs then Some [] else map_of r0 h)"
  by (induction hs arbitrary: r0) (auto simp: map_of_map_set)

subsection \<open>A source that is not in the graph\<close>

text \<open>
  Claim C6. When the source identifier is not a key of the adjacency structure,
  \<open>findNeighborsByHop\<close> returns (it does not raise) a map that holds the empty set at each
  hop of \<open>1..m\<close> and no element at any hop, and \<open>getAllConnectedNodes\<close> returns the
  empty set, whatever the value \<open>m\<close> of \<open>maxHops\<close> is.
\<close>

theorem absent_source_empty:
  assumes "\<not> map_has adj sourceId"
  shows "\<exists>result. findNeighborsByHop adj sourceId m = Inr result
           \<and> (\<forall>hop. 1 \<le> hop \<and> hop \<le> m \<longrightarrow> map_of result hop = Some [])
           \<and> (\<forall>hop. hop_set result hop = {})
           \<and> getAllConnectedNodes adj sourceId = []"
  using assms
  by (simp add: findNeighborsByHop_def getAllConnectedNodes_def hop_set_def map_of_init_hops)

theorem absent_source_empty_witness:
  "\<not> map_has [(''A'', [''B'']), (''B'', [''A''])] ''Z''
   \<and> (\<exists>result. findNeighborsByHop [(''A'', [''B'']), (''B'', [''A''])] ''Z'' 2 = Inr result
           \<and> (\<forall>hop. 1 \<le> hop \<and> hop \<le> 2 \<longrightarrow> map_of result hop = Some [])
           \<and> (\<forall>hop. hop_set result hop = {})
           \<and> getAllConnectedNodes [(''A'', [''B'']), (''B'', [''A''])] ''Z'' = [])"
proof -
  have h: "\<not> map_has [(''A'', [''B'']), (''B'', [''A''])] ''Z''"
    by (simp add: map_has_def)
  from h absent_source_empty [OF h, of 2] show ?thesis by (rule conjI)
qed

subsection \<open>getAllConnectedNodes\<close>

lemma conn_inv_step:
  assumes inv: "conn_inv adj s V (c # q) C"
    and new: "set new = set (neighbors adj c) - set V"
  shows "conn_inv adj s (V @ new) (q @ new) (if c \<noteq> s then set_add C c else C)"
proof -
  let ?C = "if c \<noteq> s then set_add C c else C"
  from inv have sV: "s \<in> set V" and qV: "set (c # q) \<subseteq> set V"
    and rV: "\<forall>v \<in> set V. reachable adj s v"
    and dV: "\<forall>v \<in> set V. v \<in> set (c # q) \<or> (set (neighbors adj v) \<subseteq> set V \<and> (v \<noteq> s \<longrightarrow> v \<in> set C))"
    and CV: "set C \<subseteq> set V - {s}"
    by (auto simp: conn_inv_def)
  have C_mono: "set C \<subseteq> set ?C" by (auto simp: set_set_add)
  have 1: "s \<in> set (V @ new)" using sV by simp
  have 2: "set (q @ new) \<subseteq> set (V @ new)" using qV by auto
  have 3: "\<forall>v \<in> set (V @ new). reachable adj s v"
  proof
    fix v assume "v \<in> set (V @ new)"
    then consider "v \<in> set V" | "v \<in> set new" by auto
    then show "reachable adj s v"
    proof cases
      case 1 with rV show ?thesis by blast
    next
      case 2
      with new have "edge adj c v" by (simp add: edge_def)
      moreover from qV rV have "reachable adj s c" by simp
      ultimately show ?thesis by (simp add: reachable_def)
    qed
  qed
  have 4: "\<forall>v \<in> set (V @ new). v \<in> set (q @ new)
      \<or> (set (neighbors adj v) \<subseteq> set (V @ new) \<and> (v \<noteq> s \<longrightarrow> v \<in> set ?C))"
  proof
    fix v assume v: "v \<in> set (V @ new)"
    show "v \<in> set (q @ new)
      \<or> (set (neighbors adj v) \<subseteq> set (V @ new) \<and> (v \<noteq> s \<longrightarrow> v \<in> set ?C))"
    proof (cases "v \<in> set (q @ new)")
      case True then show ?thesis by simp
    next
      case False
      with v have vV: "v \<in> set V" by auto
      show ?thesis
      proof (cases "v = c")
        case True
        with new have "set (neighbors adj v) \<subseteq> set (V @ new)" by auto
        moreover from True have "v \<noteq> s \<longrightarrow> v \<in> set ?C" by (simp add: set_set_add)
        ultimately show ?thesis by blast
      next
        case ne: False
        with False vV dV have "set (neighbors adj v) \<subseteq> set V \<and> (v \<noteq> s \<longrightarrow> v \<in> set C)"
          by auto
        with C_mono show ?thesis by auto
      qed
    qed
  qed
  have 5: "set ?C \<subseteq> set (V @ new) - {s}"
    using CV qV by (auto simp: set_set_add)
  from 1 2 3 4 5 show ?thesis unfolding conn_inv_def by blast
qed

lemma conn_inv_final:
  assumes inv: "conn_inv adj s V [] C"
  shows "set C = {v. reachable adj s v \<and> v \<noteq> s}"
proof -
  from inv have sV: "s \<in> set V"
    and rV: "\<forall>v \<in> set V. reachable adj s v"
    and dV: "\<forall>v \<in> set V. set (neighbors adj v) \<subseteq> set V \<and> (v \<noteq> s \<longrightarrow> v \<in> set C)"
    and CV: "set C \<subseteq> set V - {s}"
    by (auto simp: conn_inv_def)
  have closed: "v \<in> set V" if "(edge adj)\<^sup>*\<^sup>* s v" for v
    using that
  proof (induction rule: rtranclp_induct)
    case base
    show ?case by (rule sV)
  next
    case (step y z)
    with dV show ?case by (auto simp: edge_def)
  qed
  show ?thesis
  proof (intro equalityI subsetI)
    fix v assume "v \<in> set C"
    with CV rV show "v \<in> {v. reachable adj s v \<and> v \<noteq> s}" by auto
  next
    fix v assume "v \<in> {v. reachable adj s v \<and> v \<noteq> s}"
    then have "v \<in> set V" "v \<noteq> s" using closed by (auto simp: reachable_def)
    with dV show "v \<in> set C" by blast
  qed
qed

lemma bfs_conn_correct:
  "conn_inv adj s V Q C \<Longrightarrow> set (bfs_conn adj s V Q C) = {v. reachable adj s v \<and> v \<noteq> s}"
proof (induction adj s V Q C rule: bfs_conn.induct)
  case (1 adj s V C)
  then show ?case by (simp add: conn_inv_final)
next
  case (2 adj s V c q C)
  obtain V' Q' where f: "fold visit_conn (neighbors adj c) (V, q) = (V', Q')"
    by (cases "fold visit_conn (neighbors adj c) (V, q)")
  from fold_visit_conn [OF f] obtain new where
    new: "V' = V @ new" "Q' = q @ new" "set new = set (neighbors adj c) - set V"
    by blast
  let ?C = "if c \<noteq> s then set_add C c else C"
  have "conn_inv adj s V' Q' ?C"
    unfolding new(1,2) by (rule conn_inv_step [OF "2.prems" new(3)])
  from "2.IH" [OF refl f [symmetric] this] f
  show ?case by simp
qed

text \<open>
  Claim C8. For a source \<open>s\<close> that is a key of the adjacency structure, the set returned by
  \<open>getAllConnectedNodes\<close> does not contain \<open>s\<close> and contains every other node that a path
  leads to from \<open>s\<close>; it contains nothing else.
\<close>

theorem connected_is_reachable_others:
  assumes "map_has adj s"
  shows "s \<notin> set (getAllConnectedNodes adj s)
     \<and> (\<forall>v. v \<noteq> s \<and> reachable adj s v \<longrightarrow> v \<in> set (getAllConnectedNodes adj s))
     \<and> (\<forall>v \<in> set (getAllConnectedNodes adj s). reachable adj s v)"
proof -
  have "conn_inv adj s [s] [s] []"
    by (simp add: conn_inv_def reachable_def)
  from bfs_conn_correct [OF this] assms
  have "set (getAllConnectedNodes adj s) = {v. reachable adj s v \<and> v \<noteq> s}"
    by (simp add: getAllConnectedNodes_def)
  then show ?thesis by simp
qed

theorem connected_is_reachable_others_witness:
  "map_has [(''A'', [''B'']), (''B'', [''A'']), (''C'', [''D'']), (''D'', [''C''])] ''A''
   \<and> ''A'' \<notin> set (getAllConnectedNodes
         [(''A'', [''B'']), (''B'', [''A'']), (''C'', [''D'']), (''D'', [''C''])] ''A'')
   \<and> getAllConnectedNodes
         [(''A'', [''B'']), (''B'', [''A'']), (''C'', [''D'']), (''D'', [''C''])] ''A'' = [''B'']"
proof -
  let ?G = "[(''A'', [''B'']), (''B'', [''A'']), (''C'', [''D'']), (''D'', [''C''])]"
  have h: "map_has ?G ''A''"
    by (simp add: map_has_def)
  have e: "getAllConnectedNodes ?G ''A'' = [''B'']"
    using h by (simp add: getAllConnectedNodes_def neighbors_def set_add_def)
  from connected_is_reachable_others [OF h]
  have "''A'' \<notin> set (getAllConnectedNodes ?G ''A'')" by (rule conjunct1)
  with h e show ?thesis by (intro conjI)
qed

subsection \<open>findNeighborsByHop\<close>

lemma out_dist_unique: "out_dist adj s v d \<Longrightarrow> out_dist adj s v e \<Longrightarrow> d = e"
proof -
  assume a: "out_dist adj s v d" and b: "out_dist adj s v e"
  have "\<not> nat d < nat e" using a b by (auto simp: out_dist_def)
  moreover have "\<not> nat e < nat d" using a b by (auto simp: out_dist_def)
  ultimately have "nat d = nat e" using nat_neq_iff by blast
  moreover from a b have "0 \<le> d" "0 \<le> e" by (simp_all add: out_dist_def)
  ultimately show "d = e" by simp
qed

lemma out_dist_zero: "out_dist adj s v 0 \<longleftrightarrow> v = s"
  by (simp add: out_dist_def)

lemma out_ends_least:
  assumes "v \<in> out_ends adj s k"
  shows "\<exists>d. out_dist adj s v d \<and> d \<le> int k"
proof -
  define j where "j = (LEAST j. v \<in> out_ends adj s j)"
  have 1: "v \<in> out_ends adj s j" unfolding j_def using assms by (rule LeastI)
  have 2: "j \<le> k" unfolding j_def using assms by (rule Least_le)
  have 3: "\<forall>i < j. v \<notin> out_ends adj s i"
    unfolding j_def using not_less_Least by blast
  from 1 3 have "out_dist adj s v (int j)" by (simp add: out_dist_def)
  with 2 show ?thesis by (intro exI [of _ "int j"]) simp
qed

lemma out_dist_step:
  assumes "out_dist adj s u d" and "v \<in> set (neighbors adj u)"
  shows "\<exists>e. out_dist adj s v e \<and> e \<le> d + 1"
proof -
  from assms have "v \<in> out_ends adj s (Suc (nat d))" by (auto simp: out_dist_def)
  from out_ends_least [OF this] assms(1) show ?thesis
    by (auto simp: out_dist_def)
qed

lemma out_dist_pred:
  assumes "out_dist adj s v (d + 1)" and "0 \<le> d"
  shows "\<exists>p. out_dist adj s p d \<and> v \<in> set (neighbors adj p)"
proof -
  from assms have nd: "nat (d + 1) = Suc (nat d)" by simp
  from assms(1) have v: "v \<in> out_ends adj s (Suc (nat d))"
    and least: "\<forall>j < Suc (nat d). v \<notin> out_ends adj s j"
    by (simp_all add: out_dist_def nd)
  from v obtain p where p: "p \<in> out_ends adj s (nat d)" "v \<in> set (neighbors adj p)"
    by auto
  have "\<forall>j < nat d. p \<notin> out_ends adj s j"
  proof (intro allI impI notI)
    fix j assume "j < nat d" "p \<in> out_ends adj s j"
    with p(2) have "Suc j < Suc (nat d)" "v \<in> out_ends adj s (Suc j)" by auto
    with least show False by blast
  qed
  with p(1) assms(2) have "out_dist adj s p d" by (simp add: out_dist_def)
  with p(2) show ?thesis by blast
qed

lemma hop_add_ok:
  assumes "inv_keys m R" "0 < d" "d \<le> m"
  shows "\<exists>R'. hop_add R d c = Inr R'
           \<and> (\<forall>h. hop_set R' h = (if h = d then insert c (hop_set R h) else hop_set R h))
           \<and> inv_keys m R'"
proof -
  from assms obtain S where S: "map_of R d = Some S" by (auto simp: inv_keys_def)
  let ?R = "map_set R d (set_add S c)"
  have 1: "hop_add R d c = Inr ?R" using S by (simp add: hop_add_def)
  have 2: "\<forall>h. hop_set ?R h = (if h = d then insert c (hop_set R h) else hop_set R h)"
    using S by (simp add: hop_set_def map_of_map_set set_set_add)
  have 3: "inv_keys m ?R" using assms(1) by (simp add: inv_keys_def map_of_map_set)
  from 1 2 3 show ?thesis by blast
qed

lemma step_queue:
  assumes iq: "inv_queue adj m s V ((c, d) # q)"
    and fr: "inv_front adj s V ((c, d) # q)"
    and new: "if d < m then set new = set (neighbors adj c) - set V else new = []"
  shows "inv_queue adj m s (V @ new) (q @ map (\<lambda>n. (n, d + 1)) new)"
proof -
  from iq have c: "out_dist adj s c d" by (simp add: inv_queue_def)
  have old: "v \<in> set (V @ new) \<and> out_dist adj s v e \<and> (e = 0 \<or> e \<le> m)"
    if "(v, e) \<in> set q" for v e
    using iq that by (auto simp: inv_queue_def)
  have fresh: "n \<in> set (V @ new) \<and> out_dist adj s n (d + 1) \<and> (d + 1 = 0 \<or> d + 1 \<le> m)"
    if n: "n \<in> set new" for n
  proof -
    from n new have dm: "d < m" by (auto split: if_splits)
    with n new have nb: "n \<in> set (neighbors adj c)" and nV: "n \<notin> set V" by auto
    from out_dist_step [OF c nb] obtain e where e: "out_dist adj s n e" "e \<le> d + 1"
      by blast
    have "\<not> e \<le> d"
    proof
      assume "e \<le> d"
      with fr e(1) have "n \<in> set V" by (auto simp: inv_front_def)
      with nV show False by simp
    qed
    with e(2) have "e = d + 1" by simp
    with e(1) n dm show ?thesis by simp
  qed
  show ?thesis
    unfolding inv_queue_def using old fresh by auto
qed

lemma step_order:
  assumes io: "inv_order ((c, d) # q)"
  shows "inv_order (q @ map (\<lambda>n. (n, d + 1)) new)"
proof -
  let ?Q = "q @ map (\<lambda>n. (n, d + 1)) new"
  from io have sq: "sorted (map snd q)" and lo: "\<forall>e \<in> snd ` set q. d \<le> e"
    and hi: "\<forall>e \<in> snd ` set q. e \<le> d + 1"
    by (auto simp: inv_order_def)
  have s: "sorted (map snd ?Q)"
    using sq hi by (auto simp: sorted_append comp_def map_replicate_const)
  have all_lo: "\<forall>e \<in> snd ` set ?Q. d \<le> e" using lo by auto
  have all_hi: "\<forall>e \<in> snd ` set ?Q. e \<le> d + 1" using hi by auto
  have "\<forall>e \<in> snd ` set ?Q. e \<le> snd (hd ?Q) + 1"
  proof (cases "?Q = []")
    case True
    then show ?thesis by simp
  next
    case False
    then have "snd (hd ?Q) \<in> snd ` set ?Q" by (intro imageI hd_in_set)
    with all_lo have dh: "d \<le> snd (hd ?Q)" by blast
    show ?thesis
    proof
      fix e assume "e \<in> snd ` set ?Q"
      with all_hi have "e \<le> d + 1" by blast
      with dh show "e \<le> snd (hd ?Q) + 1" by linarith
    qed
  qed
  with s show ?thesis by (simp add: inv_order_def)
qed

lemma sorted_hd_least:
  "sorted (map snd Q) \<Longrightarrow> Q \<noteq> [] \<Longrightarrow> \<forall>e \<in> snd ` set Q. snd (hd Q) \<le> e"
  by (cases Q) auto

lemma step_done:
  assumes iq: "inv_queue adj m s V ((c, d) # q)"
    and io: "inv_order ((c, d) # q)"
    and idn: "inv_done adj m s V ((c, d) # q) R"
    and hs: "\<forall>h. hop_set R' h
        = (if h = d \<and> 0 < d \<and> d \<le> m then insert c (hop_set R h) else hop_set R h)"
    and new: "if d < m then set new = set (neighbors adj c) - set V else new = []"
  shows "inv_done adj m s (V @ new) (q @ map (\<lambda>n. (n, d + 1)) new) R'"
proof -
  let ?V = "V @ new" and ?Q = "q @ map (\<lambda>n. (n, d + 1)) new"
  from io have lo: "\<forall>e \<in> snd ` set q. d \<le> e" by (auto simp: inv_order_def)
  then have all_lo: "\<forall>e \<in> snd ` set ?Q. d \<le> e" by auto
  have mono: "hop_set R h \<subseteq> hop_set R' h" for h using hs by auto
  have "v \<in> fst ` set ?Q \<or> node_done adj m s ?V ?Q R' v" if v: "v \<in> set ?V" for v
  proof (cases "v \<in> fst ` set ?Q")
    case True
    then show ?thesis by simp
  next
    case False
    then have vq: "v \<notin> fst ` set q" and vn: "v \<notin> set new"
      by (auto simp: image_Un image_image)
    with v have vV: "v \<in> set V" by simp
    have "node_done adj m s ?V ?Q R' v"
    proof (cases "v = c")
      case True
      from iq have "out_dist adj s c d" by (simp add: inv_queue_def)
      moreover have "0 < d \<and> d \<le> m \<longrightarrow> c \<in> hop_set R' d" using hs by simp
      moreover have "d < m \<longrightarrow> set (neighbors adj c) \<subseteq> set ?V" using new by auto
      ultimately show ?thesis
        unfolding node_done_def True using all_lo by blast
    next
      case False
      with vq vV idn have "node_done adj m s V ((c, d) # q) R v"
        by (auto simp: inv_done_def)
      then obtain d0 where d0: "out_dist adj s v d0" "\<forall>e \<in> snd ` set ((c, d) # q). d0 \<le> e"
        "0 < d0 \<and> d0 \<le> m \<longrightarrow> v \<in> hop_set R d0"
        "d0 < m \<longrightarrow> set (neighbors adj v) \<subseteq> set V"
        unfolding node_done_def by blast
      from d0(2) have "d0 \<le> d" by simp
      with all_lo have 2: "\<forall>e \<in> snd ` set ?Q. d0 \<le> e" by (blast intro: order_trans)
      from d0(3) mono have 3: "0 < d0 \<and> d0 \<le> m \<longrightarrow> v \<in> hop_set R' d0" by blast
      from d0(4) have 4: "d0 < m \<longrightarrow> set (neighbors adj v) \<subseteq> set ?V" by auto
      from d0(1) 2 3 4 show ?thesis unfolding node_done_def by blast
    qed
    then show ?thesis by simp
  qed
  then show ?thesis unfolding inv_done_def by blast
qed

lemma step_sound:
  assumes iq: "inv_queue adj m s V ((c, d) # q)"
    and sd: "inv_sound adj m s R"
    and hs: "\<forall>h. hop_set R' h
        = (if h = d \<and> 0 < d \<and> d \<le> m then insert c (hop_set R h) else hop_set R h)"
  shows "inv_sound adj m s R'"
proof -
  from iq have c: "out_dist adj s c d" by (simp add: inv_queue_def)
  show ?thesis
    unfolding inv_sound_def
  proof (intro allI impI)
    fix h v assume "v \<in> hop_set R' h"
    with hs have "v \<in> hop_set R h \<or> (v = c \<and> h = d \<and> 0 < d \<and> d \<le> m)"
      by (auto split: if_splits)
    with sd c show "out_dist adj s v h \<and> 0 < h \<and> h \<le> m"
      by (auto simp: inv_sound_def)
  qed
qed

lemma step_front:
  assumes iq: "inv_queue adj m s V ((c, d) # q)"
    and io: "inv_order ((c, d) # q)"
    and idn: "inv_done adj m s V ((c, d) # q) R"
    and fr: "inv_front adj s V ((c, d) # q)"
    and new: "if d < m then set new = set (neighbors adj c) - set V else new = []"
  shows "inv_front adj s (V @ new) (q @ map (\<lambda>n. (n, d + 1)) new)"
proof -
  let ?V = "V @ new" and ?Q = "q @ map (\<lambda>n. (n, d + 1)) new"
  from iq have c: "out_dist adj s c d" by (simp add: inv_queue_def)
  then have d0: "0 \<le> d" by (simp add: out_dist_def)
  from fr have old: "\<And>u e. out_dist adj s u e \<Longrightarrow> e \<le> d \<Longrightarrow> u \<in> set V"
    by (auto simp: inv_front_def)
  have io': "inv_order ?Q" by (rule step_order [OF io])
  have "u \<in> set ?V" if ne: "?Q \<noteq> []" and u: "out_dist adj s u e" and le: "e \<le> snd (hd ?Q)"
    for u e
  proof (cases "e \<le> d")
    case True
    with old [OF u] show ?thesis by simp
  next
    case False
    from ne have hdin: "hd ?Q \<in> set ?Q" by (rule hd_in_set)
    from io have "\<forall>x \<in> snd ` set q. x \<le> d + 1" by (auto simp: inv_order_def)
    then have "\<forall>x \<in> snd ` set ?Q. x \<le> d + 1" by auto
    with hdin have "snd (hd ?Q) \<le> d + 1" by blast
    with le False have e: "e = d + 1" and hd: "snd (hd ?Q) = d + 1" by simp_all
    from io' ne have least: "\<forall>x \<in> snd ` set ?Q. d + 1 \<le> x"
      using sorted_hd_least [of ?Q] hd by (simp add: inv_order_def)
    have dm: "d < m"
    proof (cases "new = []")
      case True
      with hdin have "hd ?Q \<in> set q" by simp
      with iq have "snd (hd ?Q) = 0 \<or> snd (hd ?Q) \<le> m"
        by (auto simp: inv_queue_def)
      with hd d0 show ?thesis by simp
    next
      case False
      with new show ?thesis by (auto split: if_splits)
    qed
    from u e out_dist_pred [OF _ d0] obtain p where
      p: "out_dist adj s p d" "u \<in> set (neighbors adj p)" by blast
    from old [OF p(1)] have pV: "p \<in> set V" by simp
    show ?thesis
    proof (cases "p = c")
      case True
      with p(2) new dm show ?thesis by auto
    next
      case pc: False
      have "p \<notin> fst ` set q"
      proof
        assume "p \<in> fst ` set q"
        then obtain e' where e': "(p, e') \<in> set q" by auto
        with iq have "out_dist adj s p e'" by (auto simp: inv_queue_def)
        with p(1) have "d = e'" by (rule out_dist_unique)
        with e' have "d \<in> snd ` set ?Q" by force
        with least have "d + 1 \<le> d" by blast
        then show False by simp
      qed
      with pc pV idn have "node_done adj m s V ((c, d) # q) R p"
        by (auto simp: inv_done_def)
      then obtain d' where d': "out_dist adj s p d'"
        "d' < m \<longrightarrow> set (neighbors adj p) \<subseteq> set V"
        unfolding node_done_def by blast
      from d'(1) p(1) have "d' = d" by (rule out_dist_unique)
      with d'(2) dm p(2) show ?thesis by auto
    qed
  qed
  then show ?thesis unfolding inv_front_def by blast
qed

lemma hops_inv_step:
  assumes inv: "hops_inv adj m s V ((c, d) # q) R"
    and hs: "\<forall>h. hop_set R' h
        = (if h = d \<and> 0 < d \<and> d \<le> m then insert c (hop_set R h) else hop_set R h)"
    and ks: "inv_keys m R'"
    and new: "if d < m then set new = set (neighbors adj c) - set V else new = []"
  shows "hops_inv adj m s (V @ new) (q @ map (\<lambda>n. (n, d + 1)) new) R'"
proof -
  from inv have sV: "s \<in> set V" and iq: "inv_queue adj m s V ((c, d) # q)"
    and io: "inv_order ((c, d) # q)" and idn: "inv_done adj m s V ((c, d) # q) R"
    and isd: "inv_sound adj m s R" and fr: "inv_front adj s V ((c, d) # q)"
    by (simp_all add: hops_inv_def)
  from sV have "s \<in> set (V @ new)" by simp
  moreover note step_queue [OF iq fr new] step_order [OF io] step_done [OF iq io idn hs new]
    step_sound [OF iq isd hs] step_front [OF iq io idn fr new] ks
  ultimately show ?thesis unfolding hops_inv_def by blast
qed

lemma hops_inv_final:
  assumes inv: "hops_inv adj m s V [] R"
  shows "v \<in> hop_set R h \<longleftrightarrow> out_dist adj s v h \<and> 0 < h \<and> h \<le> m"
proof -
  from inv have sV: "s \<in> set V" and idn: "inv_done adj m s V [] R"
    and isd: "inv_sound adj m s R"
    by (simp_all add: hops_inv_def)
  have dn: "node_done adj m s V [] R u" if "u \<in> set V" for u
    using idn that by (simp add: inv_done_def)
  have vis: "out_dist adj s u (int k) \<Longrightarrow> int k \<le> m \<Longrightarrow> u \<in> set V" for k u
  proof (induction k arbitrary: u)
    case 0
    then show ?case using sV by (simp add: out_dist_zero)
  next
    case (Suc k)
    from Suc.prems(1) have "out_dist adj s u (int k + 1)" by (simp add: add.commute)
    from out_dist_pred [OF this] obtain p where
      p: "out_dist adj s p (int k)" "u \<in> set (neighbors adj p)" by auto
    from Suc.IH [OF p(1)] Suc.prems(2) have "p \<in> set V" by simp
    from dn [OF this] obtain d' where d': "out_dist adj s p d'"
      "d' < m \<longrightarrow> set (neighbors adj p) \<subseteq> set V"
      unfolding node_done_def by blast
    from d'(1) p(1) have "d' = int k" by (rule out_dist_unique)
    with d'(2) Suc.prems(2) p(2) show ?case by auto
  qed
  show ?thesis
  proof
    assume "v \<in> hop_set R h"
    with isd show "out_dist adj s v h \<and> 0 < h \<and> h \<le> m" by (simp add: inv_sound_def)
  next
    assume a: "out_dist adj s v h \<and> 0 < h \<and> h \<le> m"
    then have "out_dist adj s v (int (nat h))" "int (nat h) \<le> m" by simp_all
    then have "v \<in> set V" by (rule vis)
    from dn [OF this] obtain d' where d': "out_dist adj s v d'"
      "0 < d' \<and> d' \<le> m \<longrightarrow> v \<in> hop_set R d'"
      unfolding node_done_def by blast
    from d'(1) a have "d' = h" by (auto intro: out_dist_unique)
    with d'(2) a show "v \<in> hop_set R h" by simp
  qed
qed

lemma bfs_hops_correct:
  "hops_inv adj m s V Q R \<Longrightarrow>
   \<exists>R'. bfs_hops adj m V Q R = Inr R'
     \<and> (\<forall>h v. v \<in> hop_set R' h \<longleftrightarrow> out_dist adj s v h \<and> 0 < h \<and> h \<le> m)
     \<and> inv_keys m R'"
proof (induction adj m V Q R rule: bfs_hops.induct)
  case (1 adj m V R)
  from hops_inv_final [OF "1.prems"] "1.prems" show ?case
    by (simp add: hops_inv_def)
next
  case (2 adj m V c d q R)
  let ?upd = "if 0 < d \<and> d \<le> m then hop_add R d c else Inr R"
  from "2.prems" have ks: "inv_keys m R" by (simp add: hops_inv_def)
  have "\<exists>R1. ?upd = Inr R1
      \<and> (\<forall>h. hop_set R1 h
            = (if h = d \<and> 0 < d \<and> d \<le> m then insert c (hop_set R h) else hop_set R h))
      \<and> inv_keys m R1"
  proof (cases "0 < d \<and> d \<le> m")
    case True
    with hop_add_ok [OF ks, of d c] show ?thesis by auto
  next
    case False
    with ks show ?thesis by auto
  qed
  then obtain R1 where R1: "?upd = Inr R1"
    "\<forall>h. hop_set R1 h
        = (if h = d \<and> 0 < d \<and> d \<le> m then insert c (hop_set R h) else hop_set R h)"
    "inv_keys m R1"
    by blast
  show ?case
  proof (cases "d < m")
    case True
    obtain V' Q' where f: "fold (visit_hop (d + 1)) (neighbors adj c) (V, q) = (V', Q')"
      by (cases "fold (visit_hop (d + 1)) (neighbors adj c) (V, q)")
    from fold_visit_hop [OF f] obtain new where
      new: "V' = V @ new" "Q' = q @ map (\<lambda>n. (n, d + 1)) new"
        "set new = set (neighbors adj c) - set V"
      by blast
    have "hops_inv adj m s V' Q' R1"
      unfolding new(1,2)
      by (rule hops_inv_step [OF "2.prems" R1(2,3)]) (simp add: True new(3))
    from "2.IH"(1) [OF R1(1) True f [symmetric] this] R1(1) True f
    show ?thesis by simp
  next
    case False
    have "hops_inv adj m s (V @ []) (q @ map (\<lambda>n. (n, d + 1)) []) R1"
      by (rule hops_inv_step [OF "2.prems" R1(2,3)]) (simp add: False)
    then have "hops_inv adj m s V q R1" by simp
    from "2.IH"(2) [OF R1(1) False this] R1(1) False
    show ?thesis by simp
  qed
qed

lemma adjacent_symmetric:
  assumes "adj_symmetric adj"
  shows "set (adjacent adj u) = set (neighbors adj u)"
proof -
  have "a \<in> set (neighbors adj u)"
    if "a \<in> fst ` set adj" "u \<in> set (neighbors adj a)" for a
    using assms that unfolding adj_symmetric_def by blast
  then show ?thesis by (auto simp: adjacent_def)
qed

lemma walk_ends_symmetric:
  "adj_symmetric adj \<Longrightarrow> walk_ends adj s k = out_ends adj s k"
  by (induction k) (simp_all add: adjacent_symmetric)

lemma hop_distance_symmetric:
  "adj_symmetric adj \<Longrightarrow> 0 \<le> h \<Longrightarrow> hop_distance adj s v (nat h) = out_dist adj s v h"
  by (simp add: hop_distance_def out_dist_def walk_ends_symmetric)

lemma hops_inv_init:
  "hops_inv adj m s [s] [(s, 0)] (fold (\<lambda>hop r. map_set r hop []) [1..m] [])"
proof -
  let ?R = "fold (\<lambda>hop r. map_set r hop []) [1..m] []"
  have e: "hop_set ?R h = {}" for h by (simp add: hop_set_def map_of_init_hops)
  have 1: "inv_queue adj m s [s] [(s, 0)]" by (simp add: inv_queue_def out_dist_zero)
  have 2: "inv_order [(s, 0)]" by (simp add: inv_order_def)
  have 3: "inv_done adj m s [s] [(s, 0)] ?R" by (simp add: inv_done_def)
  have 4: "inv_sound adj m s ?R" by (simp add: inv_sound_def e)
  have 5: "inv_front adj s [s] [(s, 0)]"
  proof -
    have "u = s" if "out_dist adj s u e" "e \<le> 0" for u e
    proof -
      from that have "e = 0" by (simp add: out_dist_def)
      with that(1) show ?thesis by (simp add: out_dist_zero)
    qed
    then show ?thesis by (auto simp: inv_front_def)
  qed
  have 6: "inv_keys m ?R" by (simp add: inv_keys_def map_of_init_hops)
  from 1 2 3 4 5 6 show ?thesis by (simp add: hops_inv_def)
qed

text \<open>
  Claim C1. For a symmetric adjacency structure, a source that is one of its keys and
  \<open>maxHops \<ge> 1\<close>, \<open>findNeighborsByHop\<close> returns a map in which a node is in the set of
  hop \<open>h\<close> exactly when \<open>h\<close> is in \<open>1..maxHops\<close> and is the node's shortest-path distance
  from the source in the undirected graph; the sets of two different hops are disjoint.
\<close>

theorem hop_sets_are_distance_classes:
  assumes "map_has adj s" and "adj_symmetric adj" and "1 \<le> m"
  shows "\<exists>R. findNeighborsByHop adj s m = Inr R
     \<and> (\<forall>h v. v \<in> hop_set R h \<longleftrightarrow> 1 \<le> h \<and> h \<le> m \<and> hop_distance adj s v (nat h))
     \<and> (\<forall>h h'. h \<noteq> h' \<longrightarrow> hop_set R h \<inter> hop_set R h' = {})"
proof -
  from bfs_hops_correct [OF hops_inv_init, of adj m s] assms(1) obtain R where
    R: "findNeighborsByHop adj s m = Inr R"
      "\<forall>h v. v \<in> hop_set R h \<longleftrightarrow> out_dist adj s v h \<and> 0 < h \<and> h \<le> m"
    by (auto simp: findNeighborsByHop_def)
  have 1: "v \<in> hop_set R h \<longleftrightarrow> 1 \<le> h \<and> h \<le> m \<and> hop_distance adj s v (nat h)" for h v
  proof (cases "0 \<le> h")
    case True
    from hop_distance_symmetric [OF assms(2) True] R(2) show ?thesis by auto
  next
    case False
    with R(2) show ?thesis by auto
  qed
  have 2: "hop_set R h \<inter> hop_set R h' = {}" if "h \<noteq> h'" for h h'
  proof (rule ccontr)
    assume "hop_set R h \<inter> hop_set R h' \<noteq> {}"
    then obtain v where "v \<in> hop_set R h" "v \<in> hop_set R h'" by blast
    with R(2) have "out_dist adj s v h" "out_dist adj s v h'" by simp_all
    then have "h = h'" by (rule out_dist_unique)
    with that show False by simp
  qed
  from R(1) 1 2 show ?thesis by blast
qed

theorem hop_sets_are_distance_classes_witness:
  "map_has [(''A'', [''B'']), (''B'', [''A'', ''C'']), (''C'', [''B'', ''D'']), (''D'', [''C''])] ''B''
   \<and> adj_symmetric
        [(''A'', [''B'']), (''B'', [''A'', ''C'']), (''C'', [''B'', ''D'']), (''D'', [''C''])]
   \<and> findNeighborsByHop
        [(''A'', [''B'']), (''B'', [''A'', ''C'']), (''C'', [''B'', ''D'']), (''D'', [''C''])] ''B'' 2
       = Inr [(1, [''A'', ''C'']), (2, [''D''])]
   \<and> hop_distance
        [(''A'', [''B'']), (''B'', [''A'', ''C'']), (''C'', [''B'', ''D'']), (''D'', [''C''])]
        ''B'' ''D'' 2"
proof -
  let ?G = "[(''A'', [''B'']), (''B'', [''A'', ''C'']), (''C'', [''B'', ''D'']), (''D'', [''C''])]"
  have h1: "map_has ?G ''B''" by (simp add: map_has_def)
  have h2: "adj_symmetric ?G" by (simp add: adj_symmetric_def neighbors_def)
  have h3: "(1::int) \<le> 2" by simp
  have e: "findNeighborsByHop ?G ''B'' 2 = Inr [(1, [''A'', ''C'']), (2, [''D''])]"
    using h1
    by (simp add: findNeighborsByHop_def neighbors_def set_add_def hop_add_def map_set_def
        upto.simps)
  from hop_sets_are_distance_classes [OF h1 h2 h3] e
  have "\<forall>h v. v \<in> hop_set [(1, [''A'', ''C'']), (2, [''D''])] h
      \<longleftrightarrow> 1 \<le> h \<and> h \<le> 2 \<and> hop_distance ?G ''B'' v (nat h)"
    by simp
  then have "''D'' \<in> hop_set [(1, [''A'', ''C'']), (2, [''D''])] 2
      \<longleftrightarrow> 1 \<le> (2::int) \<and> (2::int) \<le> 2 \<and> hop_distance ?G ''B'' ''D'' (nat 2)"
    by blast
  then have "hop_distance ?G ''B'' ''D'' 2" by (simp add: hop_set_def)
  with h1 h2 e show ?thesis by (intro conjI)
qed

section \<open>Properties of the graph builder\<close>

lemma map_has_map_set: "map_has (map_set m k v) x \<longleftrightarrow> x = k \<or> map_has m x"
  by (simp add: map_has_def map_of_map_set)

lemma neighbors_ensure_key: "neighbors (ensure_key adj k) x = neighbors adj x"
  by (auto simp: ensure_key_def neighbors_def map_of_map_set map_has_def split: option.splits)

lemma map_has_ensure_key: "map_has (ensure_key adj k) x \<longleftrightarrow> x = k \<or> map_has adj x"
  by (auto simp: ensure_key_def map_has_map_set)

lemma add_neighbor_ok:
  assumes "map_has adj k"
  shows "\<exists>adj'. add_neighbor adj k v = Inr adj'
     \<and> (\<forall>x. set (neighbors adj' x)
            = (if x = k then insert v (set (neighbors adj x)) else set (neighbors adj x)))
     \<and> (\<forall>x. map_has adj' x \<longleftrightarrow> map_has adj x)"
proof -
  from assms obtain s where s: "map_of adj k = Some s" by (auto simp: map_has_def)
  let ?adj = "map_set adj k (set_add s v)"
  have 1: "add_neighbor adj k v = Inr ?adj" using s by (simp add: add_neighbor_def)
  have 2: "\<forall>x. set (neighbors ?adj x)
            = (if x = k then insert v (set (neighbors adj x)) else set (neighbors adj x))"
    using s by (auto simp: neighbors_def map_of_map_set set_set_add)
  have 3: "\<forall>x. map_has ?adj x \<longleftrightarrow> map_has adj x"
    using assms by (auto simp: map_has_map_set)
  from 1 2 3 show ?thesis by blast
qed

lemma addEdge_ok:
  "\<exists>adj'. addEdge adj a b = Inr adj'
     \<and> (\<forall>x. set (neighbors adj' x)
            = set (neighbors adj x) \<union> (if x = a then {b} else {}) \<union> (if x = b then {a} else {}))
     \<and> (\<forall>x. map_has adj' x \<longleftrightarrow> map_has adj x \<or> x = a \<or> x = b)"
proof -
  let ?adj2 = "ensure_key (ensure_key adj a) b"
  have k2: "map_has ?adj2 x \<longleftrightarrow> map_has adj x \<or> x = a \<or> x = b" for x
    by (auto simp: map_has_ensure_key)
  have n2: "neighbors ?adj2 x = neighbors adj x" for x
    by (simp add: neighbors_ensure_key)
  from k2 have "map_has ?adj2 a" by simp
  from add_neighbor_ok [OF this, of b] obtain adj3 where
    3: "add_neighbor ?adj2 a b = Inr adj3"
      "\<forall>x. set (neighbors adj3 x)
            = (if x = a then insert b (set (neighbors ?adj2 x)) else set (neighbors ?adj2 x))"
      "\<forall>x. map_has adj3 x \<longleftrightarrow> map_has ?adj2 x"
    by blast
  from 3(3) k2 have "map_has adj3 b" by simp
  from add_neighbor_ok [OF this, of a] obtain adj4 where
    4: "add_neighbor adj3 b a = Inr adj4"
      "\<forall>x. set (neighbors adj4 x)
            = (if x = b then insert a (set (neighbors adj3 x)) else set (neighbors adj3 x))"
      "\<forall>x. map_has adj4 x \<longleftrightarrow> map_has adj3 x"
    by blast
  have r: "addEdge adj a b = Inr adj4" using 3(1) 4(1) by (simp add: addEdge_def)
  have n: "set (neighbors adj4 x)
      = set (neighbors adj x) \<union> (if x = a then {b} else {}) \<union> (if x = b then {a} else {})"
    for x
    using 3(2) [rule_format, of x] 4(2) [rule_format, of x] n2 [of x]
    by (cases "x = a"; cases "x = b") auto
  have k: "map_has adj4 x \<longleftrightarrow> map_has adj x \<or> x = a \<or> x = b" for x
    using 3(3) [rule_format, of x] 4(3) [rule_format, of x] k2 [of x] by simp
  from r n k show ?thesis by blast
qed

lemma addEdges_ok:
  "\<exists>adj'. addEdges es adj = Inr adj'
     \<and> (\<forall>x. set (neighbors adj' x)
            = set (neighbors adj x) \<union> {b. (x, b) \<in> set es} \<union> {a. (a, x) \<in> set es})
     \<and> (\<forall>x. map_has adj' x \<longleftrightarrow> map_has adj x \<or> x \<in> fst ` set es \<or> x \<in> snd ` set es)"
proof (induction es arbitrary: adj)
  case Nil
  show ?case by simp
next
  case (Cons e es)
  obtain a b where e: "e = (a, b)" by (cases e)
  from addEdge_ok [of adj a b] obtain adj1 where
    1: "addEdge adj a b = Inr adj1"
      "\<forall>x. set (neighbors adj1 x)
            = set (neighbors adj x) \<union> (if x = a then {b} else {}) \<union> (if x = b then {a} else {})"
      "\<forall>x. map_has adj1 x \<longleftrightarrow> map_has adj x \<or> x = a \<or> x = b"
    by blast
  from Cons.IH [of adj1] obtain adj2 where
    2: "addEdges es adj1 = Inr adj2"
      "\<forall>x. set (neighbors adj2 x)
            = set (neighbors adj1 x) \<union> {b. (x, b) \<in> set es} \<union> {a. (a, x) \<in> set es}"
      "\<forall>x. map_has adj2 x \<longleftrightarrow> map_has adj1 x \<or> x \<in> fst ` set es \<or> x \<in> snd ` set es"
    by blast
  have r: "addEdges (e # es) adj = Inr adj2" using e 1(1) 2(1) by simp
  have n: "set (neighbors adj2 x)
      = set (neighbors adj x) \<union> {b. (x, b) \<in> set (e # es)} \<union> {a. (a, x) \<in> set (e # es)}"
    for x
    using 1(2) [rule_format, of x] 2(2) [rule_format, of x]
    by (cases "x = a"; cases "x = b") (auto simp: e)
  have k: "map_has adj2 x
      \<longleftrightarrow> map_has adj x \<or> x \<in> fst ` set (e # es) \<or> x \<in> snd ` set (e # es)"
    for x
    using 1(3) [rule_format, of x] 2(3) [rule_format, of x] by (auto simp: e)
  from r n k show ?case by blast
qed

lemma init_keys:
  "neighbors (fold (\<lambda>(i, node) adj. ensure_key adj i) entries adj) x = neighbors adj x
   \<and> (map_has (fold (\<lambda>(i, node) adj. ensure_key adj i) entries adj) x
        \<longleftrightarrow> map_has adj x \<or> x \<in> fst ` set entries)"
proof (induction entries arbitrary: adj)
  case Nil
  show ?case by simp
next
  case (Cons e es)
  obtain i node where e: "e = (i, node)" by (cases e)
  from Cons.IH [of "ensure_key adj i"] show ?case
    by (auto simp: e neighbors_ensure_key map_has_ensure_key)
qed

text \<open>
  Claim C5. On every node collection (map, array or record) \<open>buildFromNodes\<close> returns, and
  leaves an adjacency structure that is symmetric (\<open>b\<close> is in the neighbor set of \<open>a\<close>
  exactly when \<open>a\<close> is in that of \<open>b\<close>) and closed under keys: every member of a neighbor
  set is a key, and so are both endpoints of every link read from the input, whether or
  not the input has a node for them, and every identifier of the input.
\<close>

theorem buildFromNodes_symmetric_closed:
  "\<exists>adj. buildFromNodes nodes = Inr adj
     \<and> (\<forall>a b. b \<in> set (neighbors adj a) \<longleftrightarrow> a \<in> set (neighbors adj b))
     \<and> adj_symmetric adj
     \<and> (\<forall>a b. b \<in> set (neighbors adj a) \<longrightarrow> map_has adj b)
     \<and> (\<forall>(a, b) \<in> set (concat (map edge_calls (nodeEntries nodes))).
           map_has adj a \<and> map_has adj b \<and> b \<in> set (neighbors adj a))
     \<and> (\<forall>i \<in> fst ` set (nodeEntries nodes). map_has adj i)"
proof -
  let ?entries = "nodeEntries nodes"
  let ?es = "concat (map edge_calls ?entries)"
  let ?adj0 = "fold (\<lambda>(i, node) adj. ensure_key adj i) ?entries []"
  have n0: "set (neighbors ?adj0 x) = {}" for x
    using init_keys [of ?entries "[]" x] by (simp add: neighbors_def)
  have k0: "map_has ?adj0 x \<longleftrightarrow> x \<in> fst ` set ?entries" for x
    using init_keys [of ?entries "[]" x] by (simp add: map_has_def)
  from addEdges_ok [of ?es ?adj0] obtain adj where
    adj: "addEdges ?es ?adj0 = Inr adj"
      "\<forall>x. set (neighbors adj x)
            = set (neighbors ?adj0 x) \<union> {b. (x, b) \<in> set ?es} \<union> {a. (a, x) \<in> set ?es}"
      "\<forall>x. map_has adj x \<longleftrightarrow> map_has ?adj0 x \<or> x \<in> fst ` set ?es \<or> x \<in> snd ` set ?es"
    by blast
  have n: "set (neighbors adj x) = {b. (x, b) \<in> set ?es} \<union> {a. (a, x) \<in> set ?es}" for x
    using adj(2) n0 by simp
  have k: "map_has adj x \<longleftrightarrow> x \<in> fst ` set ?entries \<or> x \<in> fst ` set ?es \<or> x \<in> snd ` set ?es"
    for x
    using adj(3) k0 by simp
  have r: "buildFromNodes nodes = Inr adj"
    using adj(1) by (simp add: buildFromNodes_def)
  have 1: "\<forall>a b. b \<in> set (neighbors adj a) \<longleftrightarrow> a \<in> set (neighbors adj b)"
    by (simp add: n) blast
  have fs: "a \<in> fst ` set ?es" "b \<in> snd ` set ?es" if "(a, b) \<in> set ?es" for a b
    using that by (force intro: rev_image_eqI)+
  have 2: "\<forall>a b. b \<in> set (neighbors adj a) \<longrightarrow> map_has adj b"
  proof (intro allI impI)
    fix a b assume "b \<in> set (neighbors adj a)"
    then have "(a, b) \<in> set ?es \<or> (b, a) \<in> set ?es" by (simp add: n)
    with fs have "b \<in> fst ` set ?es \<or> b \<in> snd ` set ?es" by blast
    then show "map_has adj b" by (simp add: k)
  qed
  have 3: "\<forall>(a, b) \<in> set ?es. map_has adj a \<and> map_has adj b \<and> b \<in> set (neighbors adj a)"
  proof (intro ballI, clarify)
    fix a b assume ab: "(a, b) \<in> set ?es"
    from fs [OF ab] have "map_has adj a" "map_has adj b" by (simp_all add: k)
    moreover from ab have "b \<in> set (neighbors adj a)" by (simp add: n)
    ultimately show "map_has adj a \<and> map_has adj b \<and> b \<in> set (neighbors adj a)" by simp
  qed
  have 4: "\<forall>i \<in> fst ` set ?entries. map_has adj i"
    by (simp add: k)
  from 1 have 5: "adj_symmetric adj" by (simp add: adj_symmetric_def)
  from r 1 2 3 4 5 show ?thesis by blast
qed

theorem buildFromNodes_symmetric_closed_witness:
  "buildFromNodes (NodesArray [Node (Some ''A'') (LinksSet [LObject (Some ''B'')]) LinksFalsy])
     = Inr [(''A'', [''B'']), (''B'', [''A''])]
   \<and> ''B'' \<in> set (neighbors [(''A'', [''B'']), (''B'', [''A''])] ''A'')
   \<and> map_has [(''A'', [''B'']), (''B'', [''A''])] ''B''
   \<and> ''A'' \<in> set (neighbors [(''A'', [''B'']), (''B'', [''A''])] ''B'')"
proof -
  let ?nodes = "NodesArray [Node (Some ''A'') (LinksSet [LObject (Some ''B'')]) LinksFalsy]"
  let ?adj = "[(''A'', [''B'']), (''B'', [''A''])]"
  have e: "buildFromNodes ?nodes = Inr ?adj"
    by (simp add: buildFromNodes_def link_of_def addEdge_def ensure_key_def add_neighbor_def
        map_has_def map_set_def set_add_def)
  have nb: "''B'' \<in> set (neighbors ?adj ''A'')" by (simp add: neighbors_def)
  from buildFromNodes_symmetric_closed [of ?nodes] obtain adj where
    adj: "buildFromNodes ?nodes = Inr adj"
      "\<forall>a b. b \<in> set (neighbors adj a) \<longleftrightarrow> a \<in> set (neighbors adj b)"
      "\<forall>a b. b \<in> set (neighbors adj a) \<longrightarrow> map_has adj b"
    by blast
  from adj(1) e have eq: "adj = ?adj" by simp
  from adj(3) nb have k: "map_has ?adj ''B''" unfolding eq by blast
  from adj(2) nb have "''A'' \<in> set (neighbors ?adj ''B'')" unfolding eq by blast
  with e nb k show ?thesis by (intro conjI)
qed

section \<open>Properties of the rule matcher\<close>

lemma rules_loop_find:
  "rules_loop vault nodeId rs
     = map_option rule_style (find (\<lambda>r. enabled r \<and> rule_matches vault r nodeId) rs)"
  by (induction rs) auto

lemma getStyleFromRules_find:
  "getStyleFromRules settings vault nodeId
     = map_option rule_style
         (find (\<lambda>r. enabled r \<and> rule_matches vault r nodeId) (rules settings))"
  by (simp add: getStyleFromRules_def rules_loop_find)

lemma hasTag_tag_set:
  "hasTag cache p
     \<longleftrightarrow> (\<exists>t \<in> (case cache of
                  Cache inline fm \<Rightarrow>
                    (case inline of None \<Rightarrow> {} | Some ts \<Rightarrow> set ts)
                    \<union> (\<lambda>t. if prefix ''#'' t then t else CHR ''#'' # t)
                        ` (case fm of
                             TagsAbsent \<Rightarrow> {}
                           | TagsArray ts \<Rightarrow> set ts
                           | TagsString t \<Rightarrow> if t = [] then {} else {t})
                | NoCache \<Rightarrow> {}
                | NotAFile \<Rightarrow> {}).
          t = (if prefix ''#'' p then p else CHR ''#'' # p)
          \<or> prefix ((if prefix ''#'' p then p else CHR ''#'' # p) @ ''/'') t)"
proof (cases cache)
  case NotAFile
  then show ?thesis by simp
next
  case NoCache
  then show ?thesis by simp
next
  case (Cache inline fm)
  define h where "h = (\<lambda>t. if prefix ''#'' t then t else CHR ''#'' # t)"
  define Q where "Q = (\<lambda>t. t = h p \<or> prefix (h p @ ''/'') t)"
  define A where "A = (case inline of None \<Rightarrow> {} | Some ts \<Rightarrow> set ts)"
  define B where "B = (case fm of TagsAbsent \<Rightarrow> {} | TagsArray ts \<Rightarrow> set ts
      | TagsString t \<Rightarrow> if t = [] then {} else {t})"
  have n: "normalize_tag t = h t" for t by (simp add: normalize_tag_def h_def)
  have a: "(case inline of None \<Rightarrow> False | Some tags \<Rightarrow> \<exists>t \<in> set tags. Q t)
      \<longleftrightarrow> (\<exists>t \<in> A. Q t)"
    by (cases inline) (simp_all add: A_def)
  have b: "set (case fm of TagsAbsent \<Rightarrow> [] | TagsArray ts \<Rightarrow> ts
        | TagsString t \<Rightarrow> if t \<noteq> [] then [t] else []) = B"
    by (cases fm) (simp_all add: B_def)
  have "hasTag (Cache inline fm) p
      \<longleftrightarrow> (case inline of None \<Rightarrow> False | Some tags \<Rightarrow> \<exists>t \<in> set tags. Q t)
        \<or> (\<exists>t \<in> set (case fm of TagsAbsent \<Rightarrow> [] | TagsArray ts \<Rightarrow> ts
              | TagsString t \<Rightarrow> if t \<noteq> [] then [t] else []). Q (h t))"
    unfolding hasTag.simps Let_def n Q_def by (rule refl)
  also have "\<dots> \<longleftrightarrow> (\<exists>t \<in> A. Q t) \<or> (\<exists>t \<in> B. Q (h t))"
    unfolding a b by (rule refl)
  also have "\<dots> \<longleftrightarrow> (\<exists>t \<in> A \<union> h ` B. Q t)" by blast
  finally show ?thesis
    unfolding Cache file_cache.case A_def B_def Q_def h_def .
qed

text \<open>
  Claim C3. \<open>getStyleFromRules\<close> goes through the rules in stored order and returns the
  color, the shape and the size of the first rule that is enabled and whose predicate
  matches the node: the rule at the least index with both properties. The predicate of a
  folder rule is that the node identifier starts with the pattern; of a file rule, that
  the identifier is the pattern or the pattern followed by \<open>.md\<close>, or ends with \<open>/\<close>
  followed by one of the two; of a tag rule, that a tag of the file (an inline tag, or a
  frontmatter tag with \<open>#\<close> put in front when it is missing) is the pattern, with \<open>#\<close> put
  in front when it is missing, or starts with that and \<open>/\<close>. Of two enabled matching rules
  at the head of the list the first is returned; when every matching rule is disabled
  nothing is returned, and a returned style is always that of an enabled matching rule.
\<close>

theorem first_enabled_match_wins:
  "(let hash = (\<lambda>t. if prefix ''#'' t then t else CHR ''#'' # t);
        tags = (case vault nodeId of
                  Cache inline fm \<Rightarrow>
                    (case inline of None \<Rightarrow> {} | Some ts \<Rightarrow> set ts)
                    \<union> hash ` (case fm of
                                TagsAbsent \<Rightarrow> {}
                              | TagsArray ts \<Rightarrow> set ts
                              | TagsString t \<Rightarrow> if t = [] then {} else {t})
                | NoCache \<Rightarrow> {}
                | NotAFile \<Rightarrow> {});
        matches = (\<lambda>r. case rule_type r of
                     Folder \<Rightarrow> prefix (pattern r) nodeId
                   | Tag \<Rightarrow>
                       (\<exists>t \<in> tags. t = hash (pattern r) \<or> prefix (hash (pattern r) @ ''/'') t)
                   | File \<Rightarrow>
                       nodeId = pattern r
                       \<or> suffix (''/'' @ pattern r) nodeId
                       \<or> nodeId = pattern r @ ''.md''
                       \<or> suffix (''/'' @ pattern r @ ''.md'') nodeId);
        override = (\<lambda>r. \<lparr>style_color = rule_color r, style_shape = rule_shape r,
                          style_size = rule_size r\<rparr>)
    in getStyleFromRules settings vault nodeId
         = map_option override (find (\<lambda>r. enabled r \<and> matches r) (rules settings))
       \<and> (\<forall>i < length (rules settings).
             enabled (rules settings ! i) \<and> matches (rules settings ! i)
             \<and> (\<forall>j < i. \<not> (enabled (rules settings ! j) \<and> matches (rules settings ! j)))
             \<longrightarrow> getStyleFromRules settings vault nodeId = Some (override (rules settings ! i)))
       \<and> (\<forall>R0 R1 rest.
             rules settings = R0 # R1 # rest
             \<and> enabled R0 \<and> matches R0 \<and> enabled R1 \<and> matches R1
             \<longrightarrow> getStyleFromRules settings vault nodeId = Some (override R0))
       \<and> ((\<forall>r \<in> set (rules settings). matches r \<longrightarrow> \<not> enabled r)
             \<longrightarrow> getStyleFromRules settings vault nodeId = None)
       \<and> (\<forall>st. getStyleFromRules settings vault nodeId = Some st
             \<longrightarrow> (\<exists>r \<in> set (rules settings). enabled r \<and> matches r \<and> st = override r)))"
proof -
  define hash where "hash = (\<lambda>t. if prefix ''#'' t then t else CHR ''#'' # t)"
  define tags where "tags = (case vault nodeId of
      Cache inline fm \<Rightarrow>
        (case inline of None \<Rightarrow> {} | Some ts \<Rightarrow> set ts)
        \<union> hash ` (case fm of
                    TagsAbsent \<Rightarrow> {}
                  | TagsArray ts \<Rightarrow> set ts
                  | TagsString t \<Rightarrow> if t = [] then {} else {t})
    | NoCache \<Rightarrow> {}
    | NotAFile \<Rightarrow> {})"
  define matches where "matches = (\<lambda>r :: StyleRule. case rule_type r of
      Folder \<Rightarrow> prefix (pattern r) nodeId
    | Tag \<Rightarrow> (\<exists>t \<in> tags. t = hash (pattern r) \<or> prefix (hash (pattern r) @ ''/'') t)
    | File \<Rightarrow>
        nodeId = pattern r
        \<or> suffix (''/'' @ pattern r) nodeId
        \<or> nodeId = pattern r @ ''.md''
        \<or> suffix (''/'' @ pattern r @ ''.md'') nodeId)"
  define override where "override = (\<lambda>r :: StyleRule. \<lparr>style_color = rule_color r,
      style_shape = rule_shape r, style_size = rule_size r\<rparr>)"
  let ?P = "\<lambda>r. enabled r \<and> matches r"
  let ?rs = "rules settings"
  have m: "rule_matches vault r nodeId = matches r" for r
    unfolding rule_matches_def matches_def tags_def hash_def
    by (cases "rule_type r") (simp_all add: hasTag_tag_set)
  have o: "rule_style = override"
    by (rule ext) (simp add: rule_style_def override_def)
  have f: "getStyleFromRules settings vault nodeId = map_option override (find ?P ?rs)"
    by (simp add: getStyleFromRules_find m o)
  have 2: "getStyleFromRules settings vault nodeId = Some (override (?rs ! i))"
    if "i < length ?rs" "?P (?rs ! i)" "\<forall>j < i. \<not> ?P (?rs ! j)" for i
  proof -
    from that have "find ?P ?rs = Some (?rs ! i)"
      unfolding find_Some_iff by blast
    with f show ?thesis by simp
  qed
  have 3: "getStyleFromRules settings vault nodeId = Some (override R0)"
    if "?rs = R0 # R1 # rest" "?P R0" for R0 R1 rest
    using that f by simp
  have 4: "getStyleFromRules settings vault nodeId = None"
    if "\<forall>r \<in> set ?rs. matches r \<longrightarrow> \<not> enabled r"
  proof -
    from that have "find ?P ?rs = None" unfolding find_None_iff by blast
    with f show ?thesis by simp
  qed
  have 5: "\<exists>r \<in> set ?rs. ?P r \<and> st = override r"
    if "getStyleFromRules settings vault nodeId = Some st" for st
  proof -
    from that f obtain r where r: "find ?P ?rs = Some r" "st = override r" by auto
    from r(1) have "r \<in> set ?rs" "?P r"
      unfolding find_Some_iff by auto
    with r(2) show ?thesis by blast
  qed
  have "getStyleFromRules settings vault nodeId = map_option override (find ?P ?rs)
       \<and> (\<forall>i < length ?rs.
             enabled (?rs ! i) \<and> matches (?rs ! i)
             \<and> (\<forall>j < i. \<not> (enabled (?rs ! j) \<and> matches (?rs ! j)))
             \<longrightarrow> getStyleFromRules settings vault nodeId = Some (override (?rs ! i)))
       \<and> (\<forall>R0 R1 rest.
             ?rs = R0 # R1 # rest
             \<and> enabled R0 \<and> matches R0 \<and> enabled R1 \<and> matches R1
             \<longrightarrow> getStyleFromRules settings vault nodeId = Some (override R0))
       \<and> ((\<forall>r \<in> set ?rs. matches r \<longrightarrow> \<not> enabled r)
             \<longrightarrow> getStyleFromRules settings vault nodeId = None)
       \<and> (\<forall>st. getStyleFromRules settings vault nodeId = Some st
             \<longrightarrow> (\<exists>r \<in> set ?rs. enabled r \<and> matches r \<and> st = override r))"
    using f 2 3 4 5 by blast
  then show ?thesis
    unfolding Let_def matches_def tags_def hash_def override_def .
qed

theorem first_enabled_match_wins_witness:
  "getStyleFromRules (DEFAULT_SETTINGS\<lparr>rules := priority_rules\<rparr>) example_vault ''Projects/X.md''
     = Some \<lparr>style_color = Some ''#445566'', style_shape = Some SQUARE, style_size = Some 2\<rparr>
   \<and> getStyleFromRules (DEFAULT_SETTINGS\<lparr>rules := priority_rules\<rparr>) example_vault
        ''Projects/Y.md''
     = Some \<lparr>style_color = Some ''#112233'', style_shape = Some DIAMOND,
              style_size = Some 1.25\<rparr>
   \<and> getStyleFromRules (DEFAULT_SETTINGS\<lparr>rules := priority_rules\<rparr>) example_vault
        ''Archive/X.md''
     = Some \<lparr>style_color = Some ''#000001'', style_shape = Some HEXAGON,
              style_size = Some 0.5\<rparr>
   \<and> getStyleFromRules (DEFAULT_SETTINGS\<lparr>rules := priority_rules\<rparr>) example_vault ''Notes/X.md''
     = None
   \<and> getStyleFromRules (DEFAULT_SETTINGS\<lparr>rules := priority_rules\<rparr>) example_vault ''Inbox/a.md''
     = Some \<lparr>style_color = Some ''#000006'', style_shape = Some HEXAGON,
              style_size = Some 0.6\<rparr>
   \<and> getStyleFromRules (DEFAULT_SETTINGS\<lparr>rules := priority_rules\<rparr>) example_vault ''Inbox/b.md''
     = Some \<lparr>style_color = Some ''#000006'', style_shape = Some HEXAGON,
              style_size = Some 0.6\<rparr>
   \<and> getStyleFromRules (DEFAULT_SETTINGS\<lparr>rules := priority_rules\<rparr>) example_vault ''Inbox/c.md''
     = None
   \<and> getStyleFromRules (DEFAULT_SETTINGS\<lparr>rules := priority_rules\<rparr>) example_vault ''Z''
     = Some \<lparr>style_color = Some ''#000005'', style_shape = Some TRIANGLE,
              style_size = Some 1.75\<rparr>
   \<and> getStyleFromRules (DEFAULT_SETTINGS\<lparr>rules := priority_rules\<rparr>) example_vault ''Z.md''
     = Some \<lparr>style_color = Some ''#000005'', style_shape = Some TRIANGLE,
              style_size = Some 1.75\<rparr>
   \<and> getStyleFromRules (DEFAULT_SETTINGS\<lparr>rules := priority_rules\<rparr>) example_vault ''Notes/Z''
     = Some \<lparr>style_color = Some ''#000005'', style_shape = Some TRIANGLE,
              style_size = Some 1.75\<rparr>
   \<and> getStyleFromRules (DEFAULT_SETTINGS\<lparr>rules := priority_rules\<rparr>) example_vault ''Notes/Z.md''
     = Some \<lparr>style_color = Some ''#000005'', style_shape = Some TRIANGLE,
              style_size = Some 1.75\<rparr>
   \<and> getStyleFromRules (DEFAULT_SETTINGS\<lparr>rules := priority_rules\<rparr>) example_vault ''Notes/ZZ.md''
     = None"
proof -
  let ?S = "DEFAULT_SETTINGS\<lparr>rules := priority_rules\<rparr>"
  have 1: "getStyleFromRules ?S example_vault ''Projects/X.md''
      = Some \<lparr>style_color = Some ''#445566'', style_shape = Some SQUARE, style_size = Some 2\<rparr>"
    unfolding first_enabled_match_wins
      [where settings = ?S and vault = example_vault and nodeId = "''Projects/X.md''", unfolded Let_def,
        THEN conjunct1]
    by (simp add: priority_rules_def example_vault_def suffix_to_prefix)
  have 2: "getStyleFromRules ?S example_vault ''Projects/Y.md''
      = Some \<lparr>style_color = Some ''#112233'', style_shape = Some DIAMOND,
               style_size = Some 1.25\<rparr>"
    unfolding first_enabled_match_wins
      [where settings = ?S and vault = example_vault and nodeId = "''Projects/Y.md''", unfolded Let_def,
        THEN conjunct1]
    by (simp add: priority_rules_def example_vault_def suffix_to_prefix)
  have 3: "getStyleFromRules ?S example_vault ''Archive/X.md''
      = Some \<lparr>style_color = Some ''#000001'', style_shape = Some HEXAGON,
               style_size = Some 0.5\<rparr>"
    unfolding first_enabled_match_wins
      [where settings = ?S and vault = example_vault and nodeId = "''Archive/X.md''", unfolded Let_def,
        THEN conjunct1]
    by (simp add: priority_rules_def example_vault_def suffix_to_prefix)
  have 4: "getStyleFromRules ?S example_vault ''Notes/X.md'' = None"
    unfolding first_enabled_match_wins
      [where settings = ?S and vault = example_vault and nodeId = "''Notes/X.md''", unfolded Let_def,
        THEN conjunct1]
    by (simp add: priority_rules_def example_vault_def suffix_to_prefix)
  have 5: "getStyleFromRules ?S example_vault ''Inbox/a.md''
      = Some \<lparr>style_color = Some ''#000006'', style_shape = Some HEXAGON,
               style_size = Some 0.6\<rparr>"
    unfolding first_enabled_match_wins
      [where settings = ?S and vault = example_vault and nodeId = "''Inbox/a.md''", unfolded Let_def,
        THEN conjunct1]
    by (simp add: priority_rules_def example_vault_def suffix_to_prefix)
  have 6: "getStyleFromRules ?S example_vault ''Inbox/b.md''
      = Some \<lparr>style_color = Some ''#000006'', style_shape = Some HEXAGON,
               style_size = Some 0.6\<rparr>"
    unfolding first_enabled_match_wins
      [where settings = ?S and vault = example_vault and nodeId = "''Inbox/b.md''", unfolded Let_def,
        THEN conjunct1]
    by (simp add: priority_rules_def example_vault_def suffix_to_prefix)
  have 7: "getStyleFromRules ?S example_vault ''Inbox/c.md'' = None"
    unfolding first_enabled_match_wins
      [where settings = ?S and vault = example_vault and nodeId = "''Inbox/c.md''", unfolded Let_def,
        THEN conjunct1]
    by (simp add: priority_rules_def example_vault_def suffix_to_prefix)
  have 8: "getStyleFromRules ?S example_vault ''Z''
      = Some \<lparr>style_color = Some ''#000005'', style_shape = Some TRIANGLE,
               style_size = Some 1.75\<rparr>"
    unfolding first_enabled_match_wins
      [where settings = ?S and vault = example_vault and nodeId = "''Z''", unfolded Let_def,
        THEN conjunct1]
    by (simp add: priority_rules_def example_vault_def suffix_to_prefix)
  have 9: "getStyleFromRules ?S example_vault ''Z.md''
      = Some \<lparr>style_color = Some ''#000005'', style_shape = Some TRIANGLE,
               style_size = Some 1.75\<rparr>"
    unfolding first_enabled_match_wins
      [where settings = ?S and vault = example_vault and nodeId = "''Z.md''", unfolded Let_def,
        THEN conjunct1]
    by (simp add: priority_rules_def example_vault_def suffix_to_prefix)
  have 10: "getStyleFromRules ?S example_vault ''Notes/Z''
      = Some \<lparr>style_color = Some ''#000005'', style_shape = Some TRIANGLE,
               style_size = Some 1.75\<rparr>"
    unfolding first_enabled_match_wins
      [where settings = ?S and vault = example_vault and nodeId = "''Notes/Z''", unfolded Let_def,
        THEN conjunct1]
    by (simp add: priority_rules_def example_vault_def suffix_to_prefix)
  have 11: "getStyleFromRules ?S example_vault ''Notes/Z.md''
      = Some \<lparr>style_color = Some ''#000005'', style_shape = Some TRIANGLE,
               style_size = Some 1.75\<rparr>"
    unfolding first_enabled_match_wins
      [where settings = ?S and vault = example_vault and nodeId = "''Notes/Z.md''", unfolded Let_def,
        THEN conjunct1]
    by (simp add: priority_rules_def example_vault_def suffix_to_prefix)
  have 12: "getStyleFromRules ?S example_vault ''Notes/ZZ.md'' = None"
    unfolding first_enabled_match_wins
      [where settings = ?S and vault = example_vault and nodeId = "''Notes/ZZ.md''", unfolded Let_def,
        THEN conjunct1]
    by (simp add: priority_rules_def example_vault_def suffix_to_prefix)
  from 1 2 3 4 5 6 7 8 9 10 11 12 show ?thesis by (intro conjI)
qed




section \<open>Properties of the style resolver\<close>

lemma hopLevelOf_active:
  "truthy activeNodeId \<Longrightarrow> activeNodeId = Some nodeId \<Longrightarrow>
   hopLevelOf settings activeNodeId neighborsByHop allConnected nodeId = 0"
  by (simp add: hopLevelOf_def)

text \<open>
  Claim C2. When an active node is known, the style of the active node has the tint of
  \<open>selectedNodeColor\<close>, opacity 1 and the size \<open>activeNodeSize\<close>, whatever the rules are; the
  style of another node whose hop level is in \<open>1..maxHops\<close> has the tint of the color of
  the rule that matched it (a string that is not empty) and opacity 1, whatever the hop
  colors are.
\<close>

theorem active_node_style_ignores_rules:
  assumes "truthy activeNodeId"
  shows "(activeNodeId = Some nodeId \<longrightarrow>
           (\<exists>st. applyStyles_node settings vault activeNodeId neighborsByHop allConnected nodeId
                   = Inr st
              \<and> tint st = parseColor (selectedNodeColor settings)
              \<and> alpha st = 1
              \<and> node_size st = Some (activeNodeSize settings)))
     \<and> (\<forall>h rs c. activeNodeId \<noteq> Some nodeId
           \<and> hopLevelOf settings activeNodeId neighborsByHop allConnected nodeId = h
           \<and> 0 < h \<and> h \<le> maxHops settings
           \<and> getStyleFromRules settings vault nodeId = Some rs
           \<and> style_color rs = Some c \<and> c \<noteq> []
           \<longrightarrow>
           (\<exists>st. applyStyles_node settings vault activeNodeId neighborsByHop allConnected nodeId
                   = Inr st
              \<and> tint st = parseColor c
              \<and> alpha st = 1))"
proof (intro conjI impI allI)
  assume "activeNodeId = Some nodeId"
  with assms show "\<exists>st. applyStyles_node settings vault activeNodeId neighborsByHop allConnected
        nodeId = Inr st
      \<and> tint st = parseColor (selectedNodeColor settings) \<and> alpha st = 1
      \<and> node_size st = Some (activeNodeSize settings)"
    by (simp add: applyStyles_node_def nodeStyle_def color_alpha_size_def call_parseColor_def)
next
  fix h rs c
  assume a: "activeNodeId \<noteq> Some nodeId
    \<and> hopLevelOf settings activeNodeId neighborsByHop allConnected nodeId = h
    \<and> 0 < h \<and> h \<le> maxHops settings
    \<and> getStyleFromRules settings vault nodeId = Some rs
    \<and> style_color rs = Some c \<and> c \<noteq> []"
  then have "color_alpha_size settings activeNodeId nodeId h (Some rs) = (Some c, 1, None)"
    by (auto simp: color_alpha_size_def or_else_def truthy_def)
  with a show "\<exists>st. applyStyles_node settings vault activeNodeId neighborsByHop allConnected
        nodeId = Inr st
      \<and> tint st = parseColor c \<and> alpha st = 1"
    by (simp add: applyStyles_node_def nodeStyle_def call_parseColor_def)
qed

theorem active_node_style_ignores_rules_witness:
  "truthy (Some ''Projects/X.md'')
   \<and> (\<exists>st. applyStyles_node (DEFAULT_SETTINGS\<lparr>rules := example_rules\<rparr>) (\<lambda>p. NotAFile)
              (Some ''Projects/X.md'') [(1, [''Projects/Y.md''])] [''Projects/Y.md'']
              ''Projects/X.md'' = Inr st
          \<and> tint st = parseColor ''#FF6B6B'' \<and> alpha st = 1 \<and> node_size st = Some 1.1)
   \<and> (\<exists>st. applyStyles_node (DEFAULT_SETTINGS\<lparr>rules := example_rules\<rparr>) (\<lambda>p. NotAFile)
              (Some ''Projects/X.md'') [(1, [''Projects/Y.md''])] [''Projects/Y.md'']
              ''Projects/Y.md'' = Inr st
          \<and> tint st = parseColor ''#112233'' \<and> alpha st = 1)"
proof -
  let ?S = "DEFAULT_SETTINGS\<lparr>rules := example_rules\<rparr>"
  let ?v = "\<lambda>p::string. NotAFile"
  let ?a = "Some ''Projects/X.md''"
  let ?nbh = "[(1::int, [''Projects/Y.md''])]"
  let ?conn = "[''Projects/Y.md'']"
  have t: "truthy ?a" by (simp add: truthy_def)
  note inst = active_node_style_ignores_rules [OF t, of _ ?S ?v ?nbh ?conn]
  from inst [of "''Projects/X.md''"]
  have 1: "\<exists>st. applyStyles_node ?S ?v ?a ?nbh ?conn ''Projects/X.md'' = Inr st
      \<and> tint st = parseColor ''#FF6B6B'' \<and> alpha st = 1 \<and> node_size st = Some 1.1"
    by (simp add: DEFAULT_SETTINGS_def)
  have h: "hopLevelOf ?S ?a ?nbh ?conn ''Projects/Y.md'' = 1"
    by (simp add: hopLevelOf_def t hop_has_def DEFAULT_SETTINGS_def upto.simps)
  have r: "getStyleFromRules ?S ?v ''Projects/Y.md''
      = Some \<lparr>style_color = Some ''#112233'', style_shape = None, style_size = None\<rparr>"
    by (simp add: getStyleFromRules_def example_rules_def rule_matches_def rule_style_def
        suffix_to_prefix)
  from inst [of "''Projects/Y.md''", THEN conjunct2, rule_format, of 1
      "\<lparr>style_color = Some ''#112233'', style_shape = None, style_size = None\<rparr>" "''#112233''"]
    h r
  have 2: "\<exists>st. applyStyles_node ?S ?v ?a ?nbh ?conn ''Projects/Y.md'' = Inr st
      \<and> tint st = parseColor ''#112233'' \<and> alpha st = 1"
    by (simp add: DEFAULT_SETTINGS_def)
  from t 1 2 show ?thesis by (intro conjI)
qed

subsection \<open>parseColor\<close>

subsubsection \<open>White space\<close>

lemma white_space_length:
  "w \<in> set white_space \<Longrightarrow>
   length w = (if (of_char (hd w) :: nat) < 128 then 1 else if hd w = CHR 0xC2 then 2 else 3)"
  by (auto simp: white_space_def)

lemma white_space_unique:
  assumes "w \<in> set white_space" "x \<in> set white_space" "prefix w s" "prefix x s"
  shows "x = w"
proof -
  from assms(1,2) have ne: "w \<noteq> []" "x \<noteq> []" by (simp_all add: white_space_nonempty)
  have hd_prefix: "hd y = hd s" if "y \<noteq> []" "prefix y s" for y :: string
    using that by (cases y) (auto simp: prefix_def)
  from ne assms(3,4) have "hd w = hd s" "hd x = hd s"
    by (simp_all add: hd_prefix)
  with white_space_length [OF assms(1)] white_space_length [OF assms(2)]
  have "length x = length w" by simp
  moreover have "y = take (length y) s" if "prefix y s" for y :: string
    using that by (metis append_eq_conv_conj prefix_def)
  from this [OF assms(3)] this [OF assms(4)]
  have "w = take (length w) s" "x = take (length x) s" .
  ultimately show ?thesis by simp
qed

lemma skip_space_none:
  "\<forall>w \<in> set white_space. \<not> prefix w s \<Longrightarrow> skip_space s = s"
  by (subst skip_space.simps) (simp add: find_None_iff [THEN iffD2])

lemma skip_space_one:
  assumes "w \<in> set white_space"
  shows "skip_space (w @ s) = skip_space s"
proof -
  have "\<exists>x. find (\<lambda>x. prefix x (w @ s)) white_space = Some x"
    using assms by (cases "find (\<lambda>x. prefix x (w @ s)) white_space") (auto simp: find_None_iff)
  then obtain x where x: "find (\<lambda>x. prefix x (w @ s)) white_space = Some x" by blast
  then have "x \<in> set white_space" "prefix x (w @ s)" by (auto simp: find_Some_iff)
  with assms have "x = w" by (auto intro: white_space_unique [of w x "w @ s"])
  with x show ?thesis by (subst skip_space.simps) simp
qed

lemma skip_space_concat:
  assumes "set wl \<subseteq> set white_space" and "\<forall>w \<in> set white_space. \<not> prefix w s"
  shows "skip_space (concat wl @ s) = s"
  using assms(1)
proof (induction wl)
  case Nil
  with assms(2) show ?case by (simp add: skip_space_none)
next
  case (Cons w wl)
  then show ?case by (simp add: skip_space_one)
qed

lemma skip_space_decompose:
  "\<exists>wl. set wl \<subseteq> set white_space \<and> s = concat wl @ skip_space s
     \<and> (\<forall>w \<in> set white_space. \<not> prefix w (skip_space s))"
proof (induction s rule: skip_space.induct)
  case (1 s)
  show ?case
  proof (cases "find (\<lambda>w. prefix w s) white_space")
    case None
    then have n: "\<forall>w \<in> set white_space. \<not> prefix w s" by (simp add: find_None_iff)
    then have "skip_space s = s" by (rule skip_space_none)
    with n show ?thesis by (intro exI [of _ "[]"]) simp
  next
    case (Some w)
    then have w: "w \<in> set white_space" "prefix w s" by (auto simp: find_Some_iff)
    then have s: "s = w @ drop (length w) s" by (auto simp: prefix_def)
    from "1.IH" [OF Some] obtain wl where
      wl: "set wl \<subseteq> set white_space"
        "drop (length w) s = concat wl @ skip_space (drop (length w) s)"
        "\<forall>x \<in> set white_space. \<not> prefix x (skip_space (drop (length w) s))"
      by blast
    have e: "skip_space s = skip_space (drop (length w) s)"
      using Some by (subst skip_space.simps) simp
    have "s = concat (w # wl) @ skip_space s"
      using s wl(2) e by (metis append.assoc concat.simps(2))
    with w(1) wl(1,3) e show ?thesis
      by (intro exI [of _ "w # wl"]) simp
  qed
qed

subsubsection \<open>Hexadecimal digits\<close>

lemma hex_digit_hex_chars: "c \<in> set hex_chars \<Longrightarrow> hex_digit c = Some (base16_digit c)"
  by (auto simp: hex_chars_def hex_digit_def base16_digit_def)

lemma hex_digit_range: "hex_digit c = Some d \<Longrightarrow> 0 \<le> d \<and> d < 16"
  by (auto simp: hex_digit_def Let_def split: if_splits)

lemma hex_codes:
  "\<forall>k \<in> {48, 49, 50, 51, 52, 53, 54, 55, 56, 57, 97, 98, 99, 100, 101, 102,
      65, 66, 67, 68, 69, 70}. \<exists>d \<in> set hex_chars. (of_char d :: nat) = k"
  by (simp add: hex_chars_def)

lemma hex_chars_hex_digit:
  assumes "hex_digit c \<noteq> None"
  shows "c \<in> set hex_chars"
proof -
  let ?n = "of_char c :: nat"
  from assms have "(48 \<le> ?n \<and> ?n \<le> 57) \<or> (97 \<le> ?n \<and> ?n \<le> 102) \<or> (65 \<le> ?n \<and> ?n \<le> 70)"
    by (auto simp: hex_digit_def Let_def split: if_splits)
  then have "?n = 48 \<or> ?n = 49 \<or> ?n = 50 \<or> ?n = 51 \<or> ?n = 52 \<or> ?n = 53 \<or> ?n = 54
      \<or> ?n = 55 \<or> ?n = 56 \<or> ?n = 57 \<or> ?n = 97 \<or> ?n = 98 \<or> ?n = 99 \<or> ?n = 100
      \<or> ?n = 101 \<or> ?n = 102 \<or> ?n = 65 \<or> ?n = 66 \<or> ?n = 67 \<or> ?n = 68 \<or> ?n = 69
      \<or> ?n = 70"
    by arith
  then have "?n \<in> {48, 49, 50, 51, 52, 53, 54, 55, 56, 57, 97, 98, 99, 100, 101, 102,
      65, 66, 67, 68, 69, 70}"
    by blast
  with hex_codes obtain d where "d \<in> set hex_chars" "(of_char d :: nat) = of_char c"
    by blast
  then show ?thesis by simp
qed

lemma hex_digit_iff: "hex_digit c \<noteq> None \<longleftrightarrow> c \<in> set hex_chars"
  using hex_chars_hex_digit hex_digit_hex_chars by auto

lemma hex_value_snoc:
  "hex_value (ds @ [c]) = 16 * hex_value ds + (case hex_digit c of Some d \<Rightarrow> d | None \<Rightarrow> 0)"
  by (simp add: hex_value_def)

lemma hex_value_base16:
  "set ds \<subseteq> set hex_chars \<Longrightarrow> hex_value ds = base16 ds"
proof (induction ds rule: rev_induct)
  case Nil
  show ?case by (simp add: hex_value_def base16_def)
next
  case (snoc c ds)
  from snoc.prems have c: "c \<in> set hex_chars" and d: "set ds \<subseteq> set hex_chars" by simp_all
  from snoc.IH [OF d] have 1: "hex_value ds = base16_rev (rev ds)" by (simp add: base16_def)
  from hex_digit_hex_chars [OF c] have 2: "hex_digit c = Some (base16_digit c)" .
  show ?case unfolding hex_value_snoc base16_def 1 2 by simp
qed

lemma hex_value_bounds:
  "0 \<le> hex_value ds \<and> hex_value ds < 16 ^ length ds"
proof (induction ds rule: rev_induct)
  case Nil
  show ?case by (simp add: hex_value_def)
next
  case (snoc c ds)
  define d where "d = (case hex_digit c of Some d \<Rightarrow> d | None \<Rightarrow> 0)"
  have d: "0 \<le> d" "d < 16"
    unfolding d_def using hex_digit_range [of c] by (cases "hex_digit c"; simp)+
  define h where "h = hex_value ds"
  define p :: int where "p = 16 ^ length ds"
  from snoc have h: "0 \<le> h" "h < p" by (simp_all add: h_def p_def)
  have e: "hex_value (ds @ [c]) = 16 * h + d" by (simp add: hex_value_snoc h_def d_def)
  have l: "(16::int) ^ length (ds @ [c]) = 16 * p" by (simp add: p_def)
  from h d show ?case unfolding e l by linarith
qed

lemma hex_digit_plain:
  assumes "hex_digit c \<noteq> None"
  shows "c \<noteq> CHR ''-''" and "c \<noteq> CHR ''+''" and "c \<noteq> CHR ''x''" and "c \<noteq> CHR ''X''"
  using assms by (auto simp: hex_digit_def)

subsubsection \<open>The parts of the string that parseInt reads\<close>

lemma parseInt16_parts:
  assumes ws: "set wl \<subseteq> set white_space"
    and sign: "sign \<in> {[], ''-'', ''+''}"
    and pfx: "pfx \<in> {[], ''0x'', ''0X''}"
    and ds: "\<forall>c \<in> set ds. hex_digit c \<noteq> None"
    and tail: "tail = [] \<or> hex_digit (hd tail) = None"
    and no_pfx: "pfx = [] \<longrightarrow> take 2 (ds @ tail) \<noteq> ''0x'' \<and> take 2 (ds @ tail) \<noteq> ''0X''"
    and no_sign: "sign = [] \<longrightarrow>
        take 1 (pfx @ ds @ tail) \<noteq> ''-'' \<and> take 1 (pfx @ ds @ tail) \<noteq> ''+''"
    and no_ws: "\<forall>w \<in> set white_space. \<not> prefix w (sign @ pfx @ ds @ tail)"
  shows "parseInt16 (concat wl @ sign @ pfx @ ds @ tail)
     = (if ds = [] then NaN else signed_number (sign = ''-'') (hex_value ds))"
proof -
  let ?s1 = "sign @ pfx @ ds @ tail"
  let ?s2 = "pfx @ ds @ tail"
  let ?s3 = "ds @ tail"
  have 1: "skip_space (concat wl @ ?s1) = ?s1"
    using ws no_ws by (rule skip_space_concat)
  from sign consider (none) "sign = []" | (minus) "sign = ''-''" | (plus) "sign = ''+''"
    by blast
  then have neg2: "(take 1 ?s1 = ''-'') = (sign = ''-'')
      \<and> (if take 1 ?s1 = ''-'' \<or> take 1 ?s1 = ''+'' then drop 1 ?s1 else ?s1) = ?s2"
  proof cases
    case none
    with no_sign show ?thesis by simp
  next
    case minus
    then show ?thesis by simp
  next
    case plus
    then show ?thesis by simp
  qed
  then have neg: "(take 1 ?s1 = ''-'') = (sign = ''-'')"
    and 2: "(if take 1 ?s1 = ''-'' \<or> take 1 ?s1 = ''+'' then drop 1 ?s1 else ?s1) = ?s2"
    by blast+
  from pfx consider (none) "pfx = []" | (lower) "pfx = ''0x''" | (upper) "pfx = ''0X''"
    by blast
  then have 3: "(if take 2 ?s2 = ''0x'' \<or> take 2 ?s2 = ''0X'' then drop 2 ?s2 else ?s2) = ?s3"
  proof cases
    case none
    with no_pfx show ?thesis by simp
  next
    case lower
    then show ?thesis by simp
  next
    case upper
    then show ?thesis by simp
  qed
  have 4: "takeWhile (\<lambda>c. hex_digit c \<noteq> None) ?s3 = ds"
  proof (cases tail)
    case Nil
    with ds show ?thesis by (simp add: takeWhile_eq_all_conv)
  next
    case (Cons t ts)
    with tail have "hex_digit t = None" by simp
    with ds Cons show ?thesis by (simp add: takeWhile_append2)
  qed
  show ?thesis
    unfolding parseInt16_def Let_def 1
    unfolding 2
    unfolding 3
    unfolding 4 neg
    by (rule refl)
qed

lemma take_prefix: "take (length p) xs = p \<longleftrightarrow> prefix p xs"
  by (metis append_eq_conv_conj prefix_def take_is_prefix)

lemma parseInt16_layout_exists:
  "\<exists>wl sign pfx ds tail.
     s = concat wl @ sign @ pfx @ ds @ tail
     \<and> set wl \<subseteq> set white_space
     \<and> sign \<in> {[], ''-'', ''+''}
     \<and> pfx \<in> {[], ''0x'', ''0X''}
     \<and> (\<forall>c \<in> set ds. hex_digit c \<noteq> None)
     \<and> (tail = [] \<or> hex_digit (hd tail) = None)
     \<and> (pfx = [] \<longrightarrow> take 2 (ds @ tail) \<noteq> ''0x'' \<and> take 2 (ds @ tail) \<noteq> ''0X'')
     \<and> (sign = [] \<longrightarrow>
          take 1 (pfx @ ds @ tail) \<noteq> ''-'' \<and> take 1 (pfx @ ds @ tail) \<noteq> ''+'')
     \<and> (\<forall>w \<in> set white_space. \<not> prefix w (sign @ pfx @ ds @ tail))"
proof -
  from skip_space_decompose [of s] obtain wl where
    wl: "set wl \<subseteq> set white_space" "s = concat wl @ skip_space s"
      "\<forall>w \<in> set white_space. \<not> prefix w (skip_space s)"
    by blast
  define s1 where "s1 = skip_space s"
  define sign where "sign = (if take 1 s1 = ''-'' \<or> take 1 s1 = ''+'' then take 1 s1 else [])"
  define s2 where "s2 = (if take 1 s1 = ''-'' \<or> take 1 s1 = ''+'' then drop 1 s1 else s1)"
  define pfx where "pfx = (if take 2 s2 = ''0x'' \<or> take 2 s2 = ''0X'' then take 2 s2 else [])"
  define s3 where "s3 = (if take 2 s2 = ''0x'' \<or> take 2 s2 = ''0X'' then drop 2 s2 else s2)"
  define ds where "ds = takeWhile (\<lambda>c. hex_digit c \<noteq> None) s3"
  define tail where "tail = dropWhile (\<lambda>c. hex_digit c \<noteq> None) s3"
  have e3: "s3 = ds @ tail" by (simp add: ds_def tail_def)
  have e2: "s2 = pfx @ s3" by (simp add: pfx_def s3_def)
  have e1: "s1 = sign @ s2" by (simp add: sign_def s2_def)
  have 1: "s = concat wl @ sign @ pfx @ ds @ tail"
    using wl(2) by (simp add: e1 [symmetric] e2 [symmetric] e3 [symmetric] s1_def)
  have 2: "sign \<in> {[], ''-'', ''+''}" by (auto simp: sign_def)
  have 3: "pfx \<in> {[], ''0x'', ''0X''}" by (auto simp: pfx_def)
  have 4: "\<forall>c \<in> set ds. hex_digit c \<noteq> None"
    unfolding ds_def by (metis (mono_tags, lifting) set_takeWhileD)
  have 5: "tail = [] \<or> hex_digit (hd tail) = None"
  proof (cases "tail = []")
    case True
    then show ?thesis by simp
  next
    case False
    then have "dropWhile (\<lambda>c. hex_digit c \<noteq> None) s3 \<noteq> []" by (simp add: tail_def)
    from hd_dropWhile [OF this] have "hex_digit (hd tail) = None" by (simp add: tail_def)
    then show ?thesis by simp
  qed
  have 6: "pfx = [] \<longrightarrow> take 2 (ds @ tail) \<noteq> ''0x'' \<and> take 2 (ds @ tail) \<noteq> ''0X''"
    unfolding e3 [symmetric] by (auto simp: pfx_def s3_def split: if_splits)
  have 7: "sign = [] \<longrightarrow>
      take 1 (pfx @ ds @ tail) \<noteq> ''-'' \<and> take 1 (pfx @ ds @ tail) \<noteq> ''+''"
    unfolding e3 [symmetric] e2 [symmetric] by (auto simp: sign_def s2_def split: if_splits)
  have 8: "\<forall>w \<in> set white_space. \<not> prefix w (sign @ pfx @ ds @ tail)"
    using wl(3) by (simp add: e1 [symmetric] e2 [symmetric] e3 [symmetric] s1_def)
  from 1 wl(1) 2 3 4 5 6 7 8 show ?thesis by blast
qed

lemma prefix_take1: "prefix [c] xs \<longleftrightarrow> take 1 xs = [c]"
  using take_prefix [of "[c]" xs] by simp

lemma prefix_take2: "prefix [c, d] xs \<longleftrightarrow> take 2 xs = [c, d]"
  using take_prefix [of "[c, d]" xs] by (simp add: numeral_2_eq_2)

lemma hex_layout_exists: "\<exists>wl sign pfx ds tail. hex_layout s wl sign pfx ds tail"
proof -
  from parseInt16_layout_exists [of s] obtain wl sign pfx ds tail where
    l: "s = concat wl @ sign @ pfx @ ds @ tail"
      "set wl \<subseteq> set white_space"
      "sign \<in> {[], ''-'', ''+''}"
      "pfx \<in> {[], ''0x'', ''0X''}"
      "\<forall>c \<in> set ds. hex_digit c \<noteq> None"
      "tail = [] \<or> hex_digit (hd tail) = None"
      "pfx = [] \<longrightarrow> take 2 (ds @ tail) \<noteq> ''0x'' \<and> take 2 (ds @ tail) \<noteq> ''0X''"
      "sign = [] \<longrightarrow>
         take 1 (pfx @ ds @ tail) \<noteq> ''-'' \<and> take 1 (pfx @ ds @ tail) \<noteq> ''+''"
      "\<forall>w \<in> set white_space. \<not> prefix w (sign @ pfx @ ds @ tail)"
    by blast
  from l(5) have ds: "set ds \<subseteq> set hex_chars" using hex_digit_iff by blast
  from l(6) have tail: "tail = [] \<or> hd tail \<notin> set hex_chars" using hex_digit_iff by blast
  from l(7) have pfx: "pfx = [] \<longrightarrow>
      \<not> prefix ''0x'' (ds @ tail) \<and> \<not> prefix ''0X'' (ds @ tail)"
    unfolding prefix_take2 by simp
  from l(8) have sign: "sign = [] \<longrightarrow>
      \<not> prefix ''-'' (pfx @ ds @ tail) \<and> \<not> prefix ''+'' (pfx @ ds @ tail)"
    unfolding prefix_take1 by simp
  from l(1-4,9) ds tail pfx sign have "hex_layout s wl sign pfx ds tail"
    unfolding hex_layout_def by blast
  then show ?thesis by blast
qed

lemma parseInt16_layout:
  assumes "hex_layout s wl sign pfx ds tail"
  shows "parseInt16 s = (if ds = [] then NaN else signed_number (sign = ''-'') (base16 ds))"
proof -
  from assms have s: "s = concat wl @ sign @ pfx @ ds @ tail"
    and ws: "set wl \<subseteq> set white_space"
    and no_ws: "\<forall>w \<in> set white_space. \<not> prefix w (sign @ pfx @ ds @ tail)"
    and sign: "sign \<in> {[], ''-'', ''+''}"
    and no_sign: "sign = [] \<longrightarrow>
        \<not> prefix ''-'' (pfx @ ds @ tail) \<and> \<not> prefix ''+'' (pfx @ ds @ tail)"
    and pfx: "pfx \<in> {[], ''0x'', ''0X''}"
    and no_pfx: "pfx = [] \<longrightarrow> \<not> prefix ''0x'' (ds @ tail) \<and> \<not> prefix ''0X'' (ds @ tail)"
    and ds: "set ds \<subseteq> set hex_chars"
    and tail: "tail = [] \<or> hd tail \<notin> set hex_chars"
    unfolding hex_layout_def by blast+
  from ds have ds': "\<forall>c \<in> set ds. hex_digit c \<noteq> None" using hex_digit_iff by blast
  from tail have tail': "tail = [] \<or> hex_digit (hd tail) = None" using hex_digit_iff by blast
  from no_pfx have no_pfx': "pfx = [] \<longrightarrow>
      take 2 (ds @ tail) \<noteq> ''0x'' \<and> take 2 (ds @ tail) \<noteq> ''0X''"
    unfolding prefix_take2 by simp
  from no_sign have no_sign': "sign = [] \<longrightarrow>
      take 1 (pfx @ ds @ tail) \<noteq> ''-'' \<and> take 1 (pfx @ ds @ tail) \<noteq> ''+''"
    unfolding prefix_take1 by simp
  from parseInt16_parts [OF ws sign pfx ds' tail' no_pfx' no_sign' no_ws]
  show ?thesis unfolding s hex_value_base16 [OF ds] .
qed

lemma base16_bounds:
  assumes "set ds \<subseteq> set hex_chars"
  shows "0 \<le> base16 ds" and "base16 ds < 16 ^ length ds"
  using hex_value_bounds [of ds] hex_value_base16 [OF assms] by simp_all

lemma parseColor_hash: "parseColor (CHR ''#'' # rest) = parseInt16 rest"
  by (simp add: parseColor_def)

lemma white_space_not_hex: "w \<in> set white_space \<Longrightarrow> hex_digit (hd w) = None"
  by (auto simp: white_space_def hex_digit_def)

lemma hex_run_layout:
  assumes ne: "ds \<noteq> []" and hex: "set ds \<subseteq> set hex_chars"
  shows "hex_layout ds [] [] [] ds []"
proof -
  from ne obtain c cs where ds: "ds = c # cs" by (cases ds) auto
  with hex have c: "hex_digit c \<noteq> None" using hex_digit_iff by simp
  have ws: "\<not> prefix w ds" if "w \<in> set white_space" for w
  proof
    assume p: "prefix w ds"
    from that have "w \<noteq> []" by (rule white_space_nonempty)
    with p ds have "hd w = c" by (cases w) auto
    with white_space_not_hex [OF that] c show False by simp
  qed
  have sign: "\<not> prefix ''-'' ds" "\<not> prefix ''+'' ds"
    using hex_digit_plain(1,2) [OF c] by (simp_all add: ds)
  have pfx: "\<not> prefix ''0x'' ds \<and> \<not> prefix ''0X'' ds"
  proof (cases cs)
    case Nil
    with ds show ?thesis by simp
  next
    case (Cons c2 cs2)
    with hex ds have "hex_digit c2 \<noteq> None" using hex_digit_iff by simp
    from hex_digit_plain(3,4) [OF this] ds Cons show ?thesis by simp
  qed
  from ws sign pfx hex show ?thesis unfolding hex_layout_def by simp
qed

subsubsection \<open>Rounding to a double\<close>

lemma bit_length_bounds:
  "0 < n \<Longrightarrow> 2 ^ (bit_length n - 1) \<le> n \<and> n < 2 ^ bit_length n"
proof (induction n rule: bit_length.induct)
  case (1 n)
  then have n: "n \<noteq> 0" by simp
  show ?case
  proof (cases "n div 2 = 0")
    case True
    with n have "n = 1" by (simp add: div_eq_0_iff)
    moreover have "bit_length (Suc 0) = Suc 0"
      by (simp add: bit_length.simps [of "Suc 0"] bit_length.simps [of 0])
    ultimately show ?thesis by simp
  next
    case False
    then have pos: "0 < n div 2" by simp
    from "1.IH" [OF n pos] have ih: "2 ^ (bit_length (n div 2) - 1) \<le> n div 2"
      "n div 2 < 2 ^ bit_length (n div 2)" by simp_all
    have L: "bit_length n = Suc (bit_length (n div 2))"
      using n by (simp add: bit_length.simps [of n])
    have L1: "0 < bit_length (n div 2)"
      using False by (simp add: bit_length.simps [of "n div 2"])
    then have p: "(2::nat) ^ bit_length (n div 2) = 2 * 2 ^ (bit_length (n div 2) - 1)"
      by (cases "bit_length (n div 2)") simp_all
    have "2 ^ (bit_length n - 1) \<le> n"
      unfolding L using ih(1) p by simp
    moreover have "n < 2 ^ bit_length n"
      unfolding L using ih(2) by simp
    ultimately show ?thesis by simp
  qed
qed

lemma pow2_less_exp: "(2::int) ^ a < 2 ^ b \<Longrightarrow> a < b"
  by simp

lemma div_lower:
  assumes "0 < P" "A * P \<le> n"
  shows "A \<le> n div (P::int)"
proof -
  from assms(2) have "(A * P) div P \<le> n div P" using assms(1) by (intro zdiv_mono1) simp_all
  with assms(1) show ?thesis by simp
qed

lemma div_upper:
  assumes "0 < P" "n < B * P"
  shows "n div (P::int) < B"
proof -
  have "n div P * P \<le> n"
    using assms(1) by (metis mult.commute pos_mod_sign add_increasing2 mult_div_mod_eq order_refl)
  with assms(2) have "n div P * P < B * P" by simp
  with assms(1) show ?thesis by simp
qed

lemma to_double_small: "n < 2 ^ 53 \<Longrightarrow> to_double n = Some n"
  by (simp add: to_double_def)

lemma to_double_parts:
  assumes big: "(2::int) ^ 53 \<le> n"
  obtains e q r where "1 \<le> e" "n = q * 2 ^ e + r" "0 \<le> r" "r < 2 ^ e"
    "2 ^ 52 \<le> q" "q < 2 ^ 53"
    "to_double n =
       (let m = (if 2 ^ e < 2 * r \<or> (2 * r = 2 ^ e \<and> odd q) then q + 1 else q)
        in if m * 2 ^ e < 2 ^ 1024 then Some (m * 2 ^ e) else None)"
proof -
  define N where "N = nat n"
  define L where "L = bit_length N"
  define e where "e = L - 53"
  define P :: int where "P = 2 ^ e"
  define q where "q = n div P"
  define r where "r = n mod P"
  from big have npos: "0 < N" and nN: "n = int N" by (simp_all add: N_def)
  from bit_length_bounds [OF npos] have b: "2 ^ (L - 1) \<le> N" "N < 2 ^ L"
    by (simp_all add: L_def)
  from b(2) have "n < 2 ^ L" unfolding nN by (metis of_nat_less_iff of_nat_numeral of_nat_power)
  with big have "(2::int) ^ 53 < 2 ^ L" by simp
  then have L53: "53 < L" by (rule pow2_less_exp)
  then have e1: "1 \<le> e" and Le: "L = 53 + e" "L - 1 = 52 + e" by (simp_all add: e_def)
  have Ppos: "0 < P" by (simp add: P_def)
  from b(1) have "(2::int) ^ (L - 1) \<le> n"
    unfolding nN by (metis of_nat_le_iff of_nat_numeral of_nat_power)
  then have lo: "2 ^ 52 * P \<le> n" by (simp add: Le P_def power_add)
  from \<open>n < 2 ^ L\<close> have hi: "n < 2 ^ 53 * P" by (simp add: Le P_def power_add)
  have n: "n = q * P + r" by (simp add: q_def r_def)
  have r: "0 \<le> r" "r < P" using Ppos by (simp_all add: r_def)
  have q1: "2 ^ 52 \<le> q"
    unfolding q_def using Ppos lo by (rule div_lower)
  have q2: "q < 2 ^ 53"
    unfolding q_def using Ppos hi by (rule div_upper)
  have td: "to_double n =
       (let m = (if 2 ^ e < 2 * r \<or> (2 * r = 2 ^ e \<and> odd q) then q + 1 else q)
        in if m * 2 ^ e < 2 ^ 1024 then Some (m * 2 ^ e) else None)"
    using big by (simp add: to_double_def Let_def N_def L_def e_def q_def r_def P_def)
  show thesis
    by (rule that [OF e1 n [unfolded P_def] r(1) r(2) [unfolded P_def] q1 q2 td])
qed

lemma to_double_nearest:
  assumes big: "(2::int) ^ 53 \<le> n" and v: "to_double n = Some v"
  shows "is_double v" and "is_double w \<Longrightarrow> \<bar>n - v\<bar> \<le> \<bar>n - w\<bar>"
proof -
  from to_double_parts [OF big] obtain e q r where
    e: "1 \<le> e" and n: "n = q * 2 ^ e + r" and r: "0 \<le> r" "r < 2 ^ e"
    and q: "2 ^ 52 \<le> q" "q < 2 ^ 53"
    and td: "to_double n =
       (let m = (if 2 ^ e < 2 * r \<or> (2 * r = 2 ^ e \<and> odd q) then q + 1 else q)
        in if m * 2 ^ e < 2 ^ 1024 then Some (m * 2 ^ e) else None)"
    by blast
  define P :: int where "P = 2 ^ e"
  define up where "up = (P < 2 * r \<or> (2 * r = P \<and> odd q))"
  define m where "m = (if up then q + 1 else q)"
  have Ppos: "0 < P" by (simp add: P_def)
  from td v have vm: "v = m * P" and vmax: "v < 2 ^ 1024"
    by (auto simp: Let_def P_def m_def up_def split: if_splits)
  have nP: "n = q * P + r" and rP: "r < P" using n r by (simp_all add: P_def)
  have d1: "\<bar>n - v\<bar> \<le> r" and d2: "\<bar>n - v\<bar> \<le> P - r"
  proof -
    show "\<bar>n - v\<bar> \<le> r"
    proof (cases up)
      case True
      then have "v = q * P + P" by (simp add: vm m_def algebra_simps)
      moreover from True have "P \<le> 2 * r" by (auto simp: up_def)
      ultimately show ?thesis using nP rP r(1) by simp
    next
      case False
      then have "v = q * P" by (simp add: vm m_def)
      then show ?thesis using nP r(1) by simp
    qed
    show "\<bar>n - v\<bar> \<le> P - r"
    proof (cases up)
      case True
      then have "v = q * P + P" by (simp add: vm m_def algebra_simps)
      then show ?thesis using nP rP r(1) by simp
    next
      case False
      then have "v = q * P" by (simp add: vm m_def)
      moreover from False have "2 * r \<le> P" by (auto simp: up_def)
      ultimately show ?thesis using nP r(1) by simp
    qed
  qed
  show "is_double v"
  proof (cases "m < 2 ^ 53")
    case True
    moreover have "0 \<le> m" using q(1) by (simp add: m_def)
    ultimately have "\<exists>m' e'. v = m' * 2 ^ e' \<and> 0 \<le> m' \<and> m' < 2 ^ 53"
      using vm P_def by blast
    with vmax show ?thesis by (simp add: is_double_def)
  next
    case False
    with q(2) have "m = 2 ^ 53" by (simp add: m_def split: if_splits)
    then have "v = 2 ^ 52 * 2 ^ Suc e" by (simp add: vm P_def)
    moreover have "(0::int) \<le> 2 ^ 52 \<and> (2::int) ^ 52 < 2 ^ 53" by simp
    ultimately have "\<exists>m' e'. v = m' * 2 ^ e' \<and> 0 \<le> m' \<and> m' < 2 ^ 53" by blast
    with vmax show ?thesis by (simp add: is_double_def)
  qed
  show "\<bar>n - v\<bar> \<le> \<bar>n - w\<bar>" if "is_double w"
  proof -
    from that obtain m' k where w: "w = m' * 2 ^ k" "0 \<le> m'" "m' < 2 ^ 53"
      by (auto simp: is_double_def)
    have qP: "2 ^ 52 * P \<le> q * P" using q(1) Ppos by simp
    show ?thesis
    proof (cases "w < 2 ^ 52 * P")
      case True
      with qP have "w < q * P" by simp
      with nP r(1) have "r < n - w" by simp
      with d1 show ?thesis by simp
    next
      case False
      have ke: "e \<le> k"
      proof (rule ccontr)
        assume "\<not> e \<le> k"
        then have "Suc k \<le> e" by simp
        then have "(2::int) ^ Suc k \<le> 2 ^ e" by (rule power_increasing) simp
        define K :: int where "K = 2 ^ k"
        have Kpos: "0 < K" by (simp add: K_def)
        from \<open>(2::int) ^ Suc k \<le> 2 ^ e\<close> have "2 * K \<le> P" by (simp add: P_def K_def)
        then have c: "2 ^ 52 * (2 * K) \<le> 2 ^ 52 * P" by simp
        have a: "m' * K < 2 ^ 53 * K" using w(3) Kpos by (rule mult_strict_right_mono)
        have b: "(2::int) ^ 53 * K = 2 ^ 52 * (2 * K)" by simp
        from a b c have "m' * K < 2 ^ 52 * P" by linarith
        then have "w < 2 ^ 52 * P" by (simp add: w(1) K_def)
        with False show False by simp
      qed
      define j where "j = m' * 2 ^ (k - e)"
      have wj: "w = j * P"
        using ke by (simp add: w(1) j_def P_def power_add [symmetric])
      show ?thesis
      proof (cases "j \<le> q")
        case True
        then have "0 \<le> (q - j) * P" using Ppos by simp
        moreover have "n - w = (q - j) * P + r" by (simp add: nP wj algebra_simps)
        ultimately have "r \<le> n - w" by simp
        with d1 show ?thesis by simp
      next
        case False
        then have "1 * P \<le> (j - q) * P" using Ppos by (intro mult_right_mono) simp_all
        moreover have "w - n = (j - q) * P - r" by (simp add: nP wj algebra_simps)
        ultimately have "P - r \<le> w - n" by simp
        with d2 show ?thesis by simp
      qed
    qed
  qed
qed

lemma to_double_overflow:
  assumes big: "(2::int) ^ 53 \<le> n"
  shows "to_double n = None \<longleftrightarrow> 2 ^ 1024 - 2 ^ 970 \<le> n"
proof -
  from to_double_parts [OF big] obtain e q r where
    e: "1 \<le> e" and n: "n = q * 2 ^ e + r" and r: "0 \<le> r" "r < 2 ^ e"
    and q: "2 ^ 52 \<le> q" "q < 2 ^ 53"
    and td: "to_double n =
       (let m = (if 2 ^ e < 2 * r \<or> (2 * r = 2 ^ e \<and> odd q) then q + 1 else q)
        in if m * 2 ^ e < 2 ^ 1024 then Some (m * 2 ^ e) else None)"
    by blast
  define P :: int where "P = 2 ^ e"
  define T :: int where "T = 2 ^ 970"
  define up where "up = (P < 2 * r \<or> (2 * r = P \<and> odd q))"
  define m where "m = (if up then q + 1 else q)"
  have Ppos: "0 < P" by (simp add: P_def)
  have Tpos: "0 < T" by (simp add: T_def)
  have big_T: "(2::int) ^ 1024 = 2 ^ 54 * T" by (simp add: T_def)
  have nP: "n = q * P + r" and rP: "r < P" using n r by (simp_all add: P_def)
  have none: "to_double n = None \<longleftrightarrow> 2 ^ 54 * T \<le> m * P"
    unfolding td Let_def big_T [symmetric] by (simp add: m_def up_def P_def)
  have m_le: "m \<le> 2 ^ 53" and m_ge: "q \<le> m" using q(2) by (simp_all add: m_def)
  have goal: "2 ^ 1024 - 2 ^ 970 \<le> n \<longleftrightarrow> (2 ^ 54 - 1) * T \<le> n"
    unfolding big_T by (simp add: T_def algebra_simps)
  consider (low) "e \<le> 970" | (mid) "e = 971" | (high) "972 \<le> e" by linarith
  then have "2 ^ 54 * T \<le> m * P \<longleftrightarrow> (2 ^ 54 - 1) * T \<le> n"
  proof cases
    case low
    then have "(2::int) ^ e \<le> 2 ^ 970" by (intro power_increasing) simp_all
    then have PT: "P \<le> T" by (simp add: P_def T_def)
    have "m * P \<le> 2 ^ 53 * P" using m_le Ppos by (intro mult_right_mono) simp_all
    also have "\<dots> \<le> 2 ^ 53 * T" using PT by simp
    finally have a: "m * P \<le> 2 ^ 53 * T" .
    have "q * P + r < (q + 1) * P" using rP by (simp add: algebra_simps)
    also have "\<dots> \<le> 2 ^ 53 * P" using q(2) Ppos by (intro mult_right_mono) simp_all
    also have "\<dots> \<le> 2 ^ 53 * T" using PT by simp
    finally have b: "n < 2 ^ 53 * T" by (simp add: nP)
    from a b Tpos show ?thesis by simp
  next
    case mid
    then have P2: "P = 2 * T" by (simp add: P_def T_def)
    show ?thesis
    proof (cases "q = 2 ^ 53 - 1")
      case True
      then have oq: "odd q" by simp
      have "2 ^ 54 * T \<le> m * P \<longleftrightarrow> up"
        using True Tpos by (simp add: m_def P2)
      also have "up \<longleftrightarrow> T \<le> r"
        using oq by (auto simp: up_def P2)
      also have "T \<le> r \<longleftrightarrow> (2 ^ 54 - 1) * T \<le> n"
        by (simp add: nP True P2 algebra_simps)
      finally show ?thesis .
    next
      case False
      with q(2) have q2: "q + 2 \<le> 2 ^ 53" by simp
      then have "m + 1 \<le> 2 ^ 53" by (simp add: m_def)
      then have "(m + 1) * T \<le> 2 ^ 53 * T" using Tpos by (intro mult_right_mono) simp_all
      then have a: "m * P < 2 ^ 54 * T" using Tpos by (simp add: P2 algebra_simps)
      have "(q + 2) * T \<le> 2 ^ 53 * T" using q2 Tpos by (intro mult_right_mono) simp_all
      then have "q * P + P \<le> (2 ^ 54 - 2) * T" by (simp add: P2 algebra_simps)
      with rP have b: "n < (2 ^ 54 - 1) * T" using Tpos by (simp add: nP algebra_simps)
      from a b show ?thesis by simp
    qed
  next
    case high
    then have "(2::int) ^ 972 \<le> 2 ^ e" by (intro power_increasing) simp_all
    then have PT: "4 * T \<le> P" by (simp add: P_def T_def)
    have "2 ^ 52 * (4 * T) \<le> 2 ^ 52 * P" using PT by simp
    also have "\<dots> \<le> q * P" using q(1) Ppos by (intro mult_right_mono) simp_all
    finally have qP: "2 ^ 54 * T \<le> q * P" by simp
    have "q * P \<le> m * P" using m_ge Ppos by (intro mult_right_mono) simp_all
    with qP have a: "2 ^ 54 * T \<le> m * P" by simp
    from qP r(1) have b: "(2 ^ 54 - 1) * T \<le> n" using Tpos by (simp add: nP algebra_simps)
    from a b show ?thesis by simp
  qed
  with none goal show ?thesis by simp
qed

lemma to_double_tie:
  assumes big: "(2::int) ^ 53 \<le> n" and v: "to_double n = Some v"
    and w: "is_double w" "w \<noteq> v" "\<bar>n - w\<bar> = \<bar>n - v\<bar>"
  shows "\<exists>k j. v = 2 * k * 2 ^ j \<and> 2 ^ 51 \<le> k \<and> k < 2 ^ 52"
proof -
  from to_double_parts [OF big] obtain e q r where
    e: "1 \<le> e" and n: "n = q * 2 ^ e + r" and r: "0 \<le> r" "r < 2 ^ e"
    and q: "2 ^ 52 \<le> q" "q < 2 ^ 53"
    and td: "to_double n =
       (let m = (if 2 ^ e < 2 * r \<or> (2 * r = 2 ^ e \<and> odd q) then q + 1 else q)
        in if m * 2 ^ e < 2 ^ 1024 then Some (m * 2 ^ e) else None)"
    by blast
  define P :: int where "P = 2 ^ e"
  define up where "up = (P < 2 * r \<or> (2 * r = P \<and> odd q))"
  define m where "m = (if up then q + 1 else q)"
  have Ppos: "0 < P" by (simp add: P_def)
  from td v have vm: "v = m * P"
    by (auto simp: Let_def P_def m_def up_def split: if_splits)
  have nP: "n = q * P + r" and rP: "r < P" using n r by (simp_all add: P_def)
  from w(1) obtain m' k where wk: "w = m' * 2 ^ k" "0 \<le> m'" "m' < 2 ^ 53"
    by (auto simp: is_double_def)
  have qP: "2 ^ 52 * P \<le> q * P" using q(1) Ppos by simp
  have dv: "\<bar>n - v\<bar> = (if up then P - r else r)"
  proof (cases up)
    case True
    then have "v = q * P + P" by (simp add: vm m_def algebra_simps)
    then show ?thesis using True nP rP r(1) by simp
  next
    case False
    then have "v = q * P" by (simp add: vm m_def)
    then show ?thesis using False nP r(1) by simp
  qed
  have dv_r: "\<bar>n - v\<bar> \<le> r"
    unfolding dv by (auto simp: up_def)
  have dv_Pr: "\<bar>n - v\<bar> \<le> P - r"
    unfolding dv by (auto simp: up_def)
  have not_low: "\<not> w < 2 ^ 52 * P"
  proof
    assume "w < 2 ^ 52 * P"
    with qP have "w < q * P" by simp
    with nP r(1) have "r < \<bar>n - w\<bar>" by simp
    with dv_r w(3) show False by simp
  qed
  have ke: "e \<le> k"
  proof (rule ccontr)
    assume "\<not> e \<le> k"
    then have "Suc k \<le> e" by simp
    then have le: "(2::int) ^ Suc k \<le> 2 ^ e" by (rule power_increasing) simp
    define K :: int where "K = 2 ^ k"
    have Kpos: "0 < K" by (simp add: K_def)
    from le have "2 * K \<le> P" by (simp add: P_def K_def)
    then have c: "2 ^ 52 * (2 * K) \<le> 2 ^ 52 * P" by simp
    have a: "m' * K < 2 ^ 53 * K" using wk(3) Kpos by (rule mult_strict_right_mono)
    have b: "(2::int) ^ 53 * K = 2 ^ 52 * (2 * K)" by simp
    from a b c have "m' * K < 2 ^ 52 * P" by linarith
    then have "w < 2 ^ 52 * P" by (simp add: wk(1) K_def)
    with not_low show False by simp
  qed
  define j where "j = m' * 2 ^ (k - e)"
  have wj: "w = j * P"
    using ke by (simp add: wk(1) j_def P_def power_add [symmetric])
  from w(2) have jm: "j \<noteq> m" by (auto simp: wj vm)
  have half: "2 * r = P"
  proof (cases "j \<le> q")
    case True
    then have nn: "0 \<le> (q - j) * P" using Ppos by simp
    have nw: "n - w = (q - j) * P + r" by (simp add: nP wj algebra_simps)
    with nn r(1) have abs: "\<bar>n - w\<bar> = (q - j) * P + r" by simp
    show ?thesis
    proof (cases "j = q")
      case True
      with jm have up by (cases up) (simp_all add: m_def)
      with abs True w(3) dv show ?thesis by simp
    next
      case False
      with True have "1 * P \<le> (q - j) * P" using Ppos by (intro mult_right_mono) simp_all
      with abs have "P + r \<le> \<bar>n - w\<bar>" by simp
      with w(3) dv_r Ppos show ?thesis by simp
    qed
  next
    case False
    then have ge: "1 * P \<le> (j - q) * P" using Ppos by (intro mult_right_mono) simp_all
    have wn: "w - n = (j - q) * P - r" by (simp add: nP wj algebra_simps)
    with ge rP have abs: "\<bar>n - w\<bar> = (j - q) * P - r" by simp
    show ?thesis
    proof (cases "j = q + 1")
      case True
      with jm have "\<not> up" by (cases up) (simp_all add: m_def)
      with abs True w(3) dv show ?thesis by (simp add: algebra_simps)
    next
      case f: False
      with False have "2 * P \<le> (j - q) * P" using Ppos by (intro mult_right_mono) simp_all
      with abs have "2 * P - r \<le> \<bar>n - w\<bar>" by simp
      with w(3) dv_Pr Ppos show ?thesis by simp
    qed
  qed
  have "even m"
    using half Ppos by (auto simp: m_def up_def)
  then obtain h where h: "m = 2 * h" by (auto elim: evenE)
  have m_range: "2 ^ 52 \<le> m" "m \<le> 2 ^ 53" using q by (simp_all add: m_def)
  show ?thesis
  proof (cases "m = 2 ^ 53")
    case True
    then have "v = 2 * 2 ^ 51 * 2 ^ Suc e" by (simp add: vm P_def)
    moreover have "(2::int) ^ 51 \<le> 2 ^ 51 \<and> (2::int) ^ 51 < 2 ^ 52" by simp
    ultimately show ?thesis by blast
  next
    case False
    with m_range h have "2 ^ 51 \<le> h \<and> h < 2 ^ 52" by simp
    moreover have "v = 2 * h * 2 ^ e" by (simp add: vm h P_def)
    ultimately show ?thesis by blast
  qed
qed

lemma signed_number_cases:
  assumes n: "0 \<le> n"
  shows "n = 0 \<longrightarrow> signed_number neg n = (if neg then NegZero else Number 0)"
    and "0 < n \<and> n < 2 ^ 53 \<longrightarrow> signed_number neg n = Number (if neg then - n else n)"
    and "2 ^ 53 \<le> n \<and> n < 2 ^ 1024 - 2 ^ 970 \<longrightarrow>
       (\<exists>v. signed_number neg n = Number (if neg then - v else v) \<and> is_double v
          \<and> (\<forall>w. is_double w \<longrightarrow> \<bar>n - v\<bar> \<le> \<bar>n - w\<bar>
                \<and> (w \<noteq> v \<and> \<bar>n - w\<bar> = \<bar>n - v\<bar>
                    \<longrightarrow> (\<exists>k j. v = 2 * k * 2 ^ j \<and> 2 ^ 51 \<le> k \<and> k < 2 ^ 52))))"
    and "2 ^ 1024 - 2 ^ 970 \<le> n \<longrightarrow>
       signed_number neg n = (if neg then NegInfinity else PosInfinity)"
proof -
  show "n = 0 \<longrightarrow> signed_number neg n = (if neg then NegZero else Number 0)"
    by (simp add: signed_number_def)
  show "0 < n \<and> n < 2 ^ 53 \<longrightarrow> signed_number neg n = Number (if neg then - n else n)"
    by (simp add: signed_number_def to_double_small)
  show "2 ^ 53 \<le> n \<and> n < 2 ^ 1024 - 2 ^ 970 \<longrightarrow>
       (\<exists>v. signed_number neg n = Number (if neg then - v else v) \<and> is_double v
          \<and> (\<forall>w. is_double w \<longrightarrow> \<bar>n - v\<bar> \<le> \<bar>n - w\<bar>
                \<and> (w \<noteq> v \<and> \<bar>n - w\<bar> = \<bar>n - v\<bar>
                    \<longrightarrow> (\<exists>k j. v = 2 * k * 2 ^ j \<and> 2 ^ 51 \<le> k \<and> k < 2 ^ 52))))"
  proof
    assume a: "2 ^ 53 \<le> n \<and> n < 2 ^ 1024 - 2 ^ 970"
    then have big: "2 ^ 53 \<le> n" and "\<not> 2 ^ 1024 - 2 ^ 970 \<le> n" by simp_all
    with to_double_overflow [OF big] obtain v where v: "to_double n = Some v" by auto
    from big have "n \<noteq> 0" by auto
    with v have 1: "signed_number neg n = Number (if neg then - v else v)"
      by (simp add: signed_number_def)
    note 2 = to_double_nearest(1) [OF big v]
    have 3: "\<bar>n - v\<bar> \<le> \<bar>n - w\<bar>" if "is_double w" for w
      using that by (rule to_double_nearest(2) [OF big v])
    have 4: "\<exists>k j. v = 2 * k * 2 ^ j \<and> 2 ^ 51 \<le> k \<and> k < 2 ^ 52"
      if "is_double w" "w \<noteq> v" "\<bar>n - w\<bar> = \<bar>n - v\<bar>" for w
      using that by (rule to_double_tie [OF big v])
    from 1 2 3 4 show "\<exists>v. signed_number neg n = Number (if neg then - v else v) \<and> is_double v
          \<and> (\<forall>w. is_double w \<longrightarrow> \<bar>n - v\<bar> \<le> \<bar>n - w\<bar>
                \<and> (w \<noteq> v \<and> \<bar>n - w\<bar> = \<bar>n - v\<bar>
                    \<longrightarrow> (\<exists>k j. v = 2 * k * 2 ^ j \<and> 2 ^ 51 \<le> k \<and> k < 2 ^ 52)))"
      by blast
  qed
  show "2 ^ 1024 - 2 ^ 970 \<le> n \<longrightarrow>
       signed_number neg n = (if neg then NegInfinity else PosInfinity)"
  proof
    assume a: "2 ^ 1024 - 2 ^ 970 \<le> n"
    have "(2::int) ^ 53 \<le> 2 ^ 1024 - 2 ^ 970" by simp
    from this a have big: "2 ^ 53 \<le> n" by (rule order_trans)
    with a have "to_double n = None" by (simp only: to_double_overflow [OF big])
    moreover from big have "n \<noteq> 0" by auto
    ultimately show "signed_number neg n = (if neg then NegInfinity else PosInfinity)"
      by (simp add: signed_number_def)
  qed
qed

lemma bit_length_eq:
  assumes "2 ^ k \<le> n" and "n < 2 ^ Suc k"
  shows "bit_length n = Suc k"
proof -
  from assms(1) have pos: "0 < n" by (metis less_le_trans zero_less_numeral zero_less_power)
  from bit_length_bounds [OF pos] have b: "2 ^ (bit_length n - 1) \<le> n" "n < 2 ^ bit_length n"
    by simp_all
  from assms(1) b(2) have h1: "(2::nat) ^ k < 2 ^ bit_length n" by (rule le_less_trans)
  have 1: "k < bit_length n"
    by (rule power_less_imp_less_exp [of 2, OF _ h1]) simp
  from b(1) assms(2) have h2: "(2::nat) ^ (bit_length n - 1) < 2 ^ Suc k"
    by (rule le_less_trans)
  have 2: "bit_length n - 1 < Suc k"
    by (rule power_less_imp_less_exp [of 2, OF _ h2]) simp
  from 1 2 show ?thesis by simp
qed

lemma base16_replicate_f: "base16 (replicate n CHR ''f'') = 16 ^ n - 1"
proof -
  have "base16_rev (replicate n CHR ''f'') = 16 ^ n - 1"
    by (induction n) (simp_all add: base16_digit_def)
  then show ?thesis by (simp add: base16_def)
qed

lemma tie_layouts:
  "hex_layout ''20000000000001'' [] [] [] ''20000000000001'' []"
  "hex_layout ''20000000000003'' [] [] [] ''20000000000003'' []"
  by (rule hex_run_layout; simp add: hex_chars_def)+

lemma tie_values:
  "signed_number False 9007199254740993 = Number 9007199254740992"
  "signed_number False 9007199254740995 = Number 9007199254740996"
proof -
  have 1: "bit_length 9007199254740993 = 54"
    using bit_length_eq [of 53 9007199254740993] by simp
  have 2: "bit_length 9007199254740995 = 54"
    using bit_length_eq [of 53 9007199254740995] by simp
  show "signed_number False 9007199254740993 = Number 9007199254740992"
    by (simp add: signed_number_def to_double_def 1 Let_def)
  show "signed_number False 9007199254740995 = Number 9007199254740996"
    by (simp add: signed_number_def to_double_def 2 Let_def)
qed

lemma ties_to_even:
  "parseColor ''#20000000000001'' = Number 9007199254740992"
  "parseColor ''#20000000000003'' = Number 9007199254740996"
proof -
  have b: "base16 ''20000000000001'' = 9007199254740993"
    "base16 ''20000000000003'' = 9007199254740995"
    by (simp_all add: base16_def base16_digit_def)
  show "parseColor ''#20000000000001'' = Number 9007199254740992"
    unfolding parseColor_hash parseInt16_layout [OF tie_layouts(1)] b(1)
    by (simp add: tie_values)
  show "parseColor ''#20000000000003'' = Number 9007199254740996"
    unfolding parseColor_hash parseInt16_layout [OF tie_layouts(2)] b(2)
    by (simp add: tie_values)
qed

subsubsection \<open>Runs of digits, and the tints\<close>

lemma parseColor_hex_run:
  assumes ne: "ds \<noteq> []" and hex: "set ds \<subseteq> set hex_chars" and len: "length ds \<le> 13"
  shows "parseColor (CHR ''#'' # ds) = Number (base16 ds)"
proof -
  from len have "(16::int) ^ length ds \<le> 16 ^ 13" by (intro power_increasing) simp_all
  with base16_bounds [OF hex] have b: "0 \<le> base16 ds" "base16 ds < 2 ^ 53" by simp_all
  from b(2) have "to_double (base16 ds) = Some (base16 ds)" by (rule to_double_small)
  then have "signed_number False (base16 ds) = Number (base16 ds)"
    by (simp add: signed_number_def)
  with parseInt16_layout [OF hex_run_layout [OF ne hex]] ne show ?thesis
    by (simp add: parseColor_hash)
qed

lemma parseColor_hex_value:
  assumes "ds \<noteq> []" and "\<forall>c \<in> set ds. hex_digit c \<noteq> None" and "length ds \<le> 13"
  shows "parseColor (CHR ''#'' # ds) = Number (hex_value ds)"
proof -
  from assms(2) have hex: "set ds \<subseteq> set hex_chars" using hex_digit_iff by blast
  from parseColor_hex_run [OF assms(1) hex assms(3)] show ?thesis
    by (simp add: hex_value_base16 [OF hex])
qed

lemma or_else_Some: "\<exists>c. or_else a (Some b) = Some c"
  by (cases a) (auto simp: or_else_def truthy_def)

lemma or_else_cases: "or_else a b = Some c \<Longrightarrow> a = Some c \<or> b = Some c"
  by (simp add: or_else_def split: if_splits)

lemma at_index_set: "at_index xs i = Some c \<Longrightarrow> c \<in> set xs"
  by (auto simp: at_index_def split: if_splits)

lemma node_color_source:
  assumes "fst (color_alpha_size settings activeNodeId nodeId hopLevel ruleStyle) = Some color"
  shows "color = selectedNodeColor settings \<or> color \<in> set (hopColors settings)
     \<or> (\<exists>r. ruleStyle = Some r \<and> style_color r = Some color) \<or> color = ''#888888''"
proof -
  define ruleColor where
    "ruleColor = (case ruleStyle of None \<Rightarrow> None | Some r \<Rightarrow> style_color r)"
  have rule: "\<exists>r. ruleStyle = Some r \<and> style_color r = Some color" if "ruleColor = Some color"
    using that by (cases ruleStyle) (simp_all add: ruleColor_def)
  have 1: "color \<in> set (hopColors settings)
      \<or> (\<exists>r. ruleStyle = Some r \<and> style_color r = Some color)"
    if "or_else (or_else ruleColor (at_index (hopColors settings) i))
          (at_index (hopColors settings) j) = Some color" for i j
    using that rule by (auto dest!: or_else_cases dest: at_index_set)
  have 2: "(\<exists>r. ruleStyle = Some r \<and> style_color r = Some color) \<or> color = ''#888888''"
    if "or_else ruleColor (Some ''#888888'') = Some color"
    using that rule by (auto dest!: or_else_cases)
  have 3: "color \<in> set (hopColors settings)
      \<or> (\<exists>r. ruleStyle = Some r \<and> style_color r = Some color)"
    if "or_else ruleColor (at_index (hopColors settings) j) = Some color" for j
    using that rule by (auto dest!: or_else_cases dest: at_index_set)
  from assms show ?thesis
    unfolding color_alpha_size_def Let_def ruleColor_def [symmetric]
    by (auto split: if_splits dest: 1 2 3)
qed

lemma node_tint:
  assumes "fst (color_alpha_size settings activeNodeId nodeId hopLevel ruleStyle) = Some color"
  shows "\<exists>st. nodeStyle settings activeNodeId nodeId hopLevel ruleStyle = Inr st
     \<and> tint st = parseColor color"
proof -
  obtain a z where "color_alpha_size settings activeNodeId nodeId hopLevel ruleStyle
      = (Some color, a, z)"
    using assms by (cases "color_alpha_size settings activeNodeId nodeId hopLevel ruleStyle") auto
  then show ?thesis by (simp add: nodeStyle_def call_parseColor_def)
qed

lemma node_tint_color:
  assumes "nodeStyle settings activeNodeId nodeId hopLevel ruleStyle = Inr st"
  shows "\<exists>color. fst (color_alpha_size settings activeNodeId nodeId hopLevel ruleStyle)
     = Some color"
proof (cases "fst (color_alpha_size settings activeNodeId nodeId hopLevel ruleStyle)")
  case None
  then obtain a z where "color_alpha_size settings activeNodeId nodeId hopLevel ruleStyle
      = (None, a, z)"
    by (cases "color_alpha_size settings activeNodeId nodeId hopLevel ruleStyle") auto
  with assms show ?thesis by (simp add: nodeStyle_def call_parseColor_def)
next
  case (Some c)
  then show ?thesis by blast
qed

lemma gray_888888: "parseColor ''#888888'' = Number 0x888888"
proof -
  have "parseColor (CHR ''#'' # ''888888'') = Number (hex_value ''888888'')"
    by (rule parseColor_hex_value) (simp_all add: hex_digit_def)
  then show ?thesis by (simp add: hex_value_def hex_digit_def)
qed

lemma edge_result_tint:
  "\<exists>st. edge_result (Inr n) a w = Inr st \<and> edge_tint st = n"
  by (simp add: edge_result_def)

lemma edge_tint_source:
  "\<exists>st. edgeStyle settings activeNodeId neighborsByHop nodeStyles nodeHopLevels sourceId targetId
       = Inr st
     \<and> (case edgeColorMode settings of
          INHERIT \<Rightarrow>
            edge_tint st = (case nodeStyles (id_or_empty sourceId) of
                              None \<Rightarrow> Number 0x888888
                            | Some style \<Rightarrow> tint style)
        | BY_HOP \<Rightarrow>
            (\<exists>color \<in> set (hopEdgeColors settings) \<union> {edgeColor settings}.
               edge_tint st = parseColor color)
        | SINGLE \<Rightarrow>
            edge_tint st
              = parseColor
                  (if truthy activeNodeId
                      \<and> (sourceId = activeNodeId \<or> targetId = activeNodeId)
                   then highlightedEdgeColor settings else edgeColor settings))"
proof (cases "edgeColorMode settings")
  case INHERIT
  define t where "t = (case nodeStyles (id_or_empty sourceId) of
      None \<Rightarrow> Number 0x888888 | Some style \<Rightarrow> tint style)"
  have t: "(case nodeStyles (id_or_empty sourceId) of
      None \<Rightarrow> call_parseColor (Some ''#888888'') | Some st \<Rightarrow> Inr (tint st)) = Inr t"
    by (simp add: t_def call_parseColor_def gray_888888 split: option.splits)
  show ?thesis
    unfolding edgeStyle_def Let_def t INHERIT t_def [symmetric]
    using edge_result_tint [of t] by simp
next
  case BY_HOP
  define Q where "Q = (\<lambda>st :: EdgeStyle. \<exists>color \<in> set (hopEdgeColors settings) \<union> {edgeColor settings}.
      edge_tint st = parseColor color)"
  have 1: "\<exists>st. edge_result (call_parseColor (or_else (at_index (hopEdgeColors settings) i)
        (Some (edgeColor settings)))) a w = Inr st \<and> Q st" for i a w
  proof -
    from or_else_Some obtain c where
      c: "or_else (at_index (hopEdgeColors settings) i) (Some (edgeColor settings)) = Some c"
      by blast
    from or_else_cases [OF c] have "c \<in> set (hopEdgeColors settings) \<union> {edgeColor settings}"
      by (auto dest: at_index_set)
    then show ?thesis
      unfolding c Q_def by (auto simp: edge_result_def call_parseColor_def)
  qed
  have 2: "\<exists>st. edge_result (call_parseColor (Some (edgeColor settings))) a w = Inr st \<and> Q st"
    for a w
    unfolding Q_def by (simp add: edge_result_def call_parseColor_def)
  have "\<exists>st. edgeStyle settings activeNodeId neighborsByHop nodeStyles nodeHopLevels sourceId
      targetId = Inr st \<and> Q st"
    unfolding edgeStyle_def Let_def BY_HOP
    by (simp add: 1 2 split: option.splits)
  then show ?thesis by (simp add: BY_HOP Q_def)
next
  case SINGLE
  show ?thesis
    unfolding edgeStyle_def Let_def SINGLE
    by (auto simp: edge_result_def call_parseColor_def)
qed

text \<open>
  Claim C10, as amended. For a string that starts with \<open>#\<close>, \<open>parseColor\<close> gives what
  \<open>parseInt\<close> in base 16 gives for the rest. Every rest divides into white space, an
  optional sign, an optional prefix \<open>0x\<close> or \<open>0X\<close>, the longest run of hexadecimal digits
  and a remainder that is not read, and the result is: \<open>NaN\<close> when the run is empty;
  \<open>0\<close>, or \<open>-0\<close> after a minus sign, when the run is worth zero; the value of the run in
  base 16, negated after a minus sign, when it is below \<open>2^53\<close>, so for every run of at
  most 13 digits; from \<open>2^53\<close> on a nearest double, the one with the even significand when
  two are equally near; and an infinity from \<open>2^1024 - 2^970\<close> on. For a string that does
  not start with \<open>#\<close> it gives \<open>0xFFFFFF\<close>. The tint of a node is \<open>parseColor\<close> of the
  color chosen for it, which is the selected-node color, a hop color, the rule color or
  \<open>#888888\<close>, and a node has a tint only when a color was chosen; the tint of an edge is
  \<open>parseColor\<close> of a hop edge color or the edge color when edges are colored by hop, of
  the highlighted edge color or the edge color when they have a single color, and the tint
  of the source node, \<open>0x888888\<close> without one, when they inherit. So a tint parsed from a
  color that does not start with \<open>#\<close> is white.
\<close>

theorem parseColor_parses_or_white:
  "(\<forall>rest. \<exists>wl sign pfx ds tail. hex_layout rest wl sign pfx ds tail)
   \<and> (\<forall>rest wl sign pfx ds tail.
         hex_layout rest wl sign pfx ds tail \<longrightarrow>
           (ds = [] \<longrightarrow> parseColor (CHR ''#'' # rest) = NaN)
           \<and> (ds \<noteq> [] \<and> base16 ds = 0 \<longrightarrow>
                parseColor (CHR ''#'' # rest) = (if sign = ''-'' then NegZero else Number 0))
           \<and> (0 < base16 ds \<and> base16 ds < 2 ^ 53 \<longrightarrow>
                parseColor (CHR ''#'' # rest)
                  = Number (if sign = ''-'' then - base16 ds else base16 ds))
           \<and> (2 ^ 53 \<le> base16 ds \<and> base16 ds < 2 ^ 1024 - 2 ^ 970 \<longrightarrow>
                (\<exists>v. parseColor (CHR ''#'' # rest) = Number (if sign = ''-'' then - v else v)
                   \<and> is_double v
                   \<and> (\<forall>w. is_double w \<longrightarrow>
                          \<bar>base16 ds - v\<bar> \<le> \<bar>base16 ds - w\<bar>
                          \<and> (w \<noteq> v \<and> \<bar>base16 ds - w\<bar> = \<bar>base16 ds - v\<bar>
                              \<longrightarrow> (\<exists>k j. v = 2 * k * 2 ^ j \<and> 2 ^ 51 \<le> k \<and> k < 2 ^ 52)))))
           \<and> (2 ^ 1024 - 2 ^ 970 \<le> base16 ds \<longrightarrow>
                parseColor (CHR ''#'' # rest)
                  = (if sign = ''-'' then NegInfinity else PosInfinity)))
   \<and> (\<forall>ds. ds \<noteq> [] \<and> set ds \<subseteq> set hex_chars \<and> length ds \<le> 13
         \<longrightarrow> parseColor (CHR ''#'' # ds) = Number (base16 ds))
   \<and> (\<forall>color. \<not> prefix ''#'' color \<longrightarrow> parseColor color = Number 0xFFFFFF)
   \<and> (\<forall>settings activeNodeId nodeId hopLevel ruleStyle color.
         fst (color_alpha_size settings activeNodeId nodeId hopLevel ruleStyle) = Some color
         \<longrightarrow> (color = selectedNodeColor settings \<or> color \<in> set (hopColors settings)
                \<or> (\<exists>r. ruleStyle = Some r \<and> style_color r = Some color)
                \<or> color = ''#888888'')
             \<and> (\<exists>st. nodeStyle settings activeNodeId nodeId hopLevel ruleStyle = Inr st
                    \<and> tint st = parseColor color
                    \<and> (\<not> prefix ''#'' color \<longrightarrow> tint st = Number 0xFFFFFF)))
   \<and> (\<forall>settings activeNodeId nodeId hopLevel ruleStyle st.
         nodeStyle settings activeNodeId nodeId hopLevel ruleStyle = Inr st
         \<longrightarrow> (\<exists>color. fst (color_alpha_size settings activeNodeId nodeId hopLevel ruleStyle)
                  = Some color))
   \<and> (\<forall>settings activeNodeId neighborsByHop nodeStyles nodeHopLevels sourceId targetId.
         \<exists>st. edgeStyle settings activeNodeId neighborsByHop nodeStyles nodeHopLevels sourceId
                 targetId = Inr st
           \<and> (case edgeColorMode settings of
                INHERIT \<Rightarrow>
                  edge_tint st = (case nodeStyles (id_or_empty sourceId) of
                                    None \<Rightarrow> Number 0x888888
                                  | Some style \<Rightarrow> tint style)
              | BY_HOP \<Rightarrow>
                  (\<exists>color \<in> set (hopEdgeColors settings) \<union> {edgeColor settings}.
                     edge_tint st = parseColor color
                     \<and> (\<not> prefix ''#'' color \<longrightarrow> edge_tint st = Number 0xFFFFFF))
              | SINGLE \<Rightarrow>
                  (let color = (if truthy activeNodeId
                                   \<and> (sourceId = activeNodeId \<or> targetId = activeNodeId)
                                then highlightedEdgeColor settings else edgeColor settings)
                   in edge_tint st = parseColor color
                      \<and> (\<not> prefix ''#'' color \<longrightarrow> edge_tint st = Number 0xFFFFFF))))"
proof -
  have white: "parseColor color = Number 0xFFFFFF" if "\<not> prefix ''#'' color" for color
    using that by (simp add: parseColor_def)
  have c1: "\<forall>rest. \<exists>wl sign pfx ds tail. hex_layout rest wl sign pfx ds tail"
    using hex_layout_exists by blast
  have c2: "\<forall>rest wl sign pfx ds tail.
         hex_layout rest wl sign pfx ds tail \<longrightarrow>
           (ds = [] \<longrightarrow> parseColor (CHR ''#'' # rest) = NaN)
           \<and> (ds \<noteq> [] \<and> base16 ds = 0 \<longrightarrow>
                parseColor (CHR ''#'' # rest) = (if sign = ''-'' then NegZero else Number 0))
           \<and> (0 < base16 ds \<and> base16 ds < 2 ^ 53 \<longrightarrow>
                parseColor (CHR ''#'' # rest)
                  = Number (if sign = ''-'' then - base16 ds else base16 ds))
           \<and> (2 ^ 53 \<le> base16 ds \<and> base16 ds < 2 ^ 1024 - 2 ^ 970 \<longrightarrow>
                (\<exists>v. parseColor (CHR ''#'' # rest) = Number (if sign = ''-'' then - v else v)
                   \<and> is_double v
                   \<and> (\<forall>w. is_double w \<longrightarrow>
                          \<bar>base16 ds - v\<bar> \<le> \<bar>base16 ds - w\<bar>
                          \<and> (w \<noteq> v \<and> \<bar>base16 ds - w\<bar> = \<bar>base16 ds - v\<bar>
                              \<longrightarrow> (\<exists>k j. v = 2 * k * 2 ^ j \<and> 2 ^ 51 \<le> k \<and> k < 2 ^ 52)))))
           \<and> (2 ^ 1024 - 2 ^ 970 \<le> base16 ds \<longrightarrow>
                parseColor (CHR ''#'' # rest)
                  = (if sign = ''-'' then NegInfinity else PosInfinity))"
  proof (intro allI impI)
    fix rest wl sign pfx ds tail
    assume l: "hex_layout rest wl sign pfx ds tail"
    define n where "n = base16 ds"
    define neg where "neg = (sign = ''-'')"
    from l have hex: "set ds \<subseteq> set hex_chars" by (simp add: hex_layout_def)
    from base16_bounds(1) [OF hex] have n0: "0 \<le> n" by (simp add: n_def)
    have empty: "n = 0" if "ds = []" using that by (simp add: n_def base16_def)
    have p: "parseColor (CHR ''#'' # rest) = (if ds = [] then NaN else signed_number neg n)"
      unfolding parseColor_hash parseInt16_layout [OF l] n_def neg_def by (rule refl)
    note s = signed_number_cases [OF n0, of neg]
    have a: "ds = [] \<longrightarrow> parseColor (CHR ''#'' # rest) = NaN"
      by (simp add: p)
    have b: "ds \<noteq> [] \<and> n = 0 \<longrightarrow>
        parseColor (CHR ''#'' # rest) = (if neg then NegZero else Number 0)"
      using s(1) by (simp add: p)
    have c: "0 < n \<and> n < 2 ^ 53 \<longrightarrow>
        parseColor (CHR ''#'' # rest) = Number (if neg then - n else n)"
    proof
      assume h: "0 < n \<and> n < 2 ^ 53"
      with empty have "ds \<noteq> []" by auto
      with s(2) h show "parseColor (CHR ''#'' # rest) = Number (if neg then - n else n)"
        by (simp only: p if_False)
    qed
    have d: "2 ^ 53 \<le> n \<and> n < 2 ^ 1024 - 2 ^ 970 \<longrightarrow>
        (\<exists>v. parseColor (CHR ''#'' # rest) = Number (if neg then - v else v) \<and> is_double v
           \<and> (\<forall>w. is_double w \<longrightarrow> \<bar>n - v\<bar> \<le> \<bar>n - w\<bar>
                 \<and> (w \<noteq> v \<and> \<bar>n - w\<bar> = \<bar>n - v\<bar>
                     \<longrightarrow> (\<exists>k j. v = 2 * k * 2 ^ j \<and> 2 ^ 51 \<le> k \<and> k < 2 ^ 52))))"
    proof
      assume h: "2 ^ 53 \<le> n \<and> n < 2 ^ 1024 - 2 ^ 970"
      then have "n \<noteq> 0" by auto
      with empty have "ds \<noteq> []" by auto
      then have "parseColor (CHR ''#'' # rest) = signed_number neg n" by (simp add: p)
      with s(3) h show "\<exists>v. parseColor (CHR ''#'' # rest) = Number (if neg then - v else v)
           \<and> is_double v
           \<and> (\<forall>w. is_double w \<longrightarrow> \<bar>n - v\<bar> \<le> \<bar>n - w\<bar>
                 \<and> (w \<noteq> v \<and> \<bar>n - w\<bar> = \<bar>n - v\<bar>
                     \<longrightarrow> (\<exists>k j. v = 2 * k * 2 ^ j \<and> 2 ^ 51 \<le> k \<and> k < 2 ^ 52)))"
        by (simp only:)
    qed
    have e: "2 ^ 1024 - 2 ^ 970 \<le> n \<longrightarrow>
        parseColor (CHR ''#'' # rest) = (if neg then NegInfinity else PosInfinity)"
    proof
      assume h: "2 ^ 1024 - 2 ^ 970 \<le> n"
      have "(0::int) < 2 ^ 1024 - 2 ^ 970" by simp
      with h have "n \<noteq> 0" by linarith
      with empty have "ds \<noteq> []" by auto
      then have "parseColor (CHR ''#'' # rest) = signed_number neg n" by (simp add: p)
      with s(4) h show "parseColor (CHR ''#'' # rest)
          = (if neg then NegInfinity else PosInfinity)"
        by (simp only:)
    qed
    from a b c d e
    show "(ds = [] \<longrightarrow> parseColor (CHR ''#'' # rest) = NaN)
           \<and> (ds \<noteq> [] \<and> base16 ds = 0 \<longrightarrow>
                parseColor (CHR ''#'' # rest) = (if sign = ''-'' then NegZero else Number 0))
           \<and> (0 < base16 ds \<and> base16 ds < 2 ^ 53 \<longrightarrow>
                parseColor (CHR ''#'' # rest)
                  = Number (if sign = ''-'' then - base16 ds else base16 ds))
           \<and> (2 ^ 53 \<le> base16 ds \<and> base16 ds < 2 ^ 1024 - 2 ^ 970 \<longrightarrow>
                (\<exists>v. parseColor (CHR ''#'' # rest) = Number (if sign = ''-'' then - v else v)
                   \<and> is_double v
                   \<and> (\<forall>w. is_double w \<longrightarrow>
                          \<bar>base16 ds - v\<bar> \<le> \<bar>base16 ds - w\<bar>
                          \<and> (w \<noteq> v \<and> \<bar>base16 ds - w\<bar> = \<bar>base16 ds - v\<bar>
                              \<longrightarrow> (\<exists>k j. v = 2 * k * 2 ^ j \<and> 2 ^ 51 \<le> k \<and> k < 2 ^ 52)))))
           \<and> (2 ^ 1024 - 2 ^ 970 \<le> base16 ds \<longrightarrow>
                parseColor (CHR ''#'' # rest)
                  = (if sign = ''-'' then NegInfinity else PosInfinity))"
      unfolding n_def neg_def by (intro conjI)
  qed
  have c3: "\<forall>ds. ds \<noteq> [] \<and> set ds \<subseteq> set hex_chars \<and> length ds \<le> 13
         \<longrightarrow> parseColor (CHR ''#'' # ds) = Number (base16 ds)"
    using parseColor_hex_run by blast
  have c4: "\<forall>color. \<not> prefix ''#'' color \<longrightarrow> parseColor color = Number 0xFFFFFF"
    using white by blast
  have c5: "\<forall>settings activeNodeId nodeId hopLevel ruleStyle color.
         fst (color_alpha_size settings activeNodeId nodeId hopLevel ruleStyle) = Some color
         \<longrightarrow> (color = selectedNodeColor settings \<or> color \<in> set (hopColors settings)
                \<or> (\<exists>r. ruleStyle = Some r \<and> style_color r = Some color)
                \<or> color = ''#888888'')
             \<and> (\<exists>st. nodeStyle settings activeNodeId nodeId hopLevel ruleStyle = Inr st
                    \<and> tint st = parseColor color
                    \<and> (\<not> prefix ''#'' color \<longrightarrow> tint st = Number 0xFFFFFF))"
  proof (intro allI impI conjI)
    fix settings activeNodeId nodeId hopLevel ruleStyle color
    assume h: "fst (color_alpha_size settings activeNodeId nodeId hopLevel ruleStyle)
        = Some color"
    from node_color_source [OF h]
    show "color = selectedNodeColor settings \<or> color \<in> set (hopColors settings)
        \<or> (\<exists>r. ruleStyle = Some r \<and> style_color r = Some color) \<or> color = ''#888888''" .
    from node_tint [OF h] obtain st where
      st: "nodeStyle settings activeNodeId nodeId hopLevel ruleStyle = Inr st"
        "tint st = parseColor color"
      by blast
    from st(2) white [of color]
    have "\<not> prefix ''#'' color \<longrightarrow> tint st = Number 0xFFFFFF" by simp
    with st show "\<exists>st. nodeStyle settings activeNodeId nodeId hopLevel ruleStyle = Inr st
        \<and> tint st = parseColor color
        \<and> (\<not> prefix ''#'' color \<longrightarrow> tint st = Number 0xFFFFFF)"
      by blast
  qed
  have c6: "\<forall>settings activeNodeId nodeId hopLevel ruleStyle st.
         nodeStyle settings activeNodeId nodeId hopLevel ruleStyle = Inr st
         \<longrightarrow> (\<exists>color. fst (color_alpha_size settings activeNodeId nodeId hopLevel ruleStyle)
                  = Some color)"
    using node_tint_color by blast
  have c7: "\<forall>settings activeNodeId neighborsByHop nodeStyles nodeHopLevels sourceId targetId.
         \<exists>st. edgeStyle settings activeNodeId neighborsByHop nodeStyles nodeHopLevels sourceId
                 targetId = Inr st
           \<and> (case edgeColorMode settings of
                INHERIT \<Rightarrow>
                  edge_tint st = (case nodeStyles (id_or_empty sourceId) of
                                    None \<Rightarrow> Number 0x888888
                                  | Some style \<Rightarrow> tint style)
              | BY_HOP \<Rightarrow>
                  (\<exists>color \<in> set (hopEdgeColors settings) \<union> {edgeColor settings}.
                     edge_tint st = parseColor color
                     \<and> (\<not> prefix ''#'' color \<longrightarrow> edge_tint st = Number 0xFFFFFF))
              | SINGLE \<Rightarrow>
                  (let color = (if truthy activeNodeId
                                   \<and> (sourceId = activeNodeId \<or> targetId = activeNodeId)
                                then highlightedEdgeColor settings else edgeColor settings)
                   in edge_tint st = parseColor color
                      \<and> (\<not> prefix ''#'' color \<longrightarrow> edge_tint st = Number 0xFFFFFF)))"
  proof (intro allI)
    fix settings activeNodeId neighborsByHop nodeStyles nodeHopLevels sourceId targetId
    from edge_tint_source
      [of settings activeNodeId neighborsByHop nodeStyles nodeHopLevels sourceId targetId]
    obtain st where
      st: "edgeStyle settings activeNodeId neighborsByHop nodeStyles nodeHopLevels sourceId
          targetId = Inr st"
      and t: "case edgeColorMode settings of
          INHERIT \<Rightarrow>
            edge_tint st = (case nodeStyles (id_or_empty sourceId) of
                              None \<Rightarrow> Number 0x888888
                            | Some style \<Rightarrow> tint style)
        | BY_HOP \<Rightarrow>
            (\<exists>color \<in> set (hopEdgeColors settings) \<union> {edgeColor settings}.
               edge_tint st = parseColor color)
        | SINGLE \<Rightarrow>
            edge_tint st
              = parseColor
                  (if truthy activeNodeId
                      \<and> (sourceId = activeNodeId \<or> targetId = activeNodeId)
                   then highlightedEdgeColor settings else edgeColor settings)"
      by blast
    have "case edgeColorMode settings of
          INHERIT \<Rightarrow>
            edge_tint st = (case nodeStyles (id_or_empty sourceId) of
                              None \<Rightarrow> Number 0x888888
                            | Some style \<Rightarrow> tint style)
        | BY_HOP \<Rightarrow>
            (\<exists>color \<in> set (hopEdgeColors settings) \<union> {edgeColor settings}.
               edge_tint st = parseColor color
               \<and> (\<not> prefix ''#'' color \<longrightarrow> edge_tint st = Number 0xFFFFFF))
        | SINGLE \<Rightarrow>
            (let color = (if truthy activeNodeId
                             \<and> (sourceId = activeNodeId \<or> targetId = activeNodeId)
                          then highlightedEdgeColor settings else edgeColor settings)
             in edge_tint st = parseColor color
                \<and> (\<not> prefix ''#'' color \<longrightarrow> edge_tint st = Number 0xFFFFFF))"
    proof (cases "edgeColorMode settings")
      case INHERIT
      with t show ?thesis by simp
    next
      case BY_HOP
      with t obtain color where
        "color \<in> set (hopEdgeColors settings) \<union> {edgeColor settings}"
        "edge_tint st = parseColor color"
        by auto
      moreover from this(2) white [of color]
      have "\<not> prefix ''#'' color \<longrightarrow> edge_tint st = Number 0xFFFFFF" by simp
      ultimately have "\<exists>color \<in> set (hopEdgeColors settings) \<union> {edgeColor settings}.
          edge_tint st = parseColor color
          \<and> (\<not> prefix ''#'' color \<longrightarrow> edge_tint st = Number 0xFFFFFF)"
        by blast
      with BY_HOP show ?thesis by simp
    next
      case SINGLE
      define color where "color = (if truthy activeNodeId
          \<and> (sourceId = activeNodeId \<or> targetId = activeNodeId)
        then highlightedEdgeColor settings else edgeColor settings)"
      from t SINGLE have e: "edge_tint st = parseColor color" by (simp add: color_def)
      with white [of color]
      have "\<not> prefix ''#'' color \<longrightarrow> edge_tint st = Number 0xFFFFFF" by simp
      with e have r: "let c = color
          in edge_tint st = parseColor c
             \<and> (\<not> prefix ''#'' c \<longrightarrow> edge_tint st = Number 0xFFFFFF)"
        by (simp add: Let_def)
      show ?thesis
        unfolding SINGLE EdgeColorMode.case using r unfolding color_def .
    qed
    with st show "\<exists>st. edgeStyle settings activeNodeId neighborsByHop nodeStyles nodeHopLevels
          sourceId targetId = Inr st
        \<and> (case edgeColorMode settings of
             INHERIT \<Rightarrow>
               edge_tint st = (case nodeStyles (id_or_empty sourceId) of
                                 None \<Rightarrow> Number 0x888888
                               | Some style \<Rightarrow> tint style)
           | BY_HOP \<Rightarrow>
               (\<exists>color \<in> set (hopEdgeColors settings) \<union> {edgeColor settings}.
                  edge_tint st = parseColor color
                  \<and> (\<not> prefix ''#'' color \<longrightarrow> edge_tint st = Number 0xFFFFFF))
           | SINGLE \<Rightarrow>
               (let color = (if truthy activeNodeId
                                \<and> (sourceId = activeNodeId \<or> targetId = activeNodeId)
                             then highlightedEdgeColor settings else edgeColor settings)
                in edge_tint st = parseColor color
                   \<and> (\<not> prefix ''#'' color \<longrightarrow> edge_tint st = Number 0xFFFFFF)))"
      by blast
  qed
  from c1 c2 c3 c4 c5 c6 c7 show ?thesis by (intro conjI)
qed

theorem parseColor_parses_or_white_witness:
  "parseColor ''#112233'' = Number 0x112233
   \<and> parseColor ''#abcdef'' = Number 0xABCDEF
   \<and> parseColor ''#ABCDEF'' = Number 0xABCDEF
   \<and> parseColor ''#12zz'' = Number 0x12
   \<and> parseColor [CHR ''#'', CHR 0xC2, CHR 0xA0, CHR ''f'', CHR ''f''] = Number 255
   \<and> parseColor [CHR ''#'', CHR 0xEF, CHR 0xBB, CHR 0xBF, CHR ''f'', CHR ''f''] = Number 255
   \<and> parseColor
        (CHR ''#'' #
         [CHR 0x09, CHR 0x0A, CHR 0x0B, CHR 0x0C, CHR 0x0D, CHR 0x20,
          CHR 0xC2, CHR 0xA0, CHR 0xE1, CHR 0x9A, CHR 0x80,
          CHR 0xE2, CHR 0x80, CHR 0x80, CHR 0xE2, CHR 0x80, CHR 0x81,
          CHR 0xE2, CHR 0x80, CHR 0x82, CHR 0xE2, CHR 0x80, CHR 0x83,
          CHR 0xE2, CHR 0x80, CHR 0x84, CHR 0xE2, CHR 0x80, CHR 0x85,
          CHR 0xE2, CHR 0x80, CHR 0x86, CHR 0xE2, CHR 0x80, CHR 0x87,
          CHR 0xE2, CHR 0x80, CHR 0x88, CHR 0xE2, CHR 0x80, CHR 0x89,
          CHR 0xE2, CHR 0x80, CHR 0x8A, CHR 0xE2, CHR 0x80, CHR 0xA8,
          CHR 0xE2, CHR 0x80, CHR 0xA9, CHR 0xE2, CHR 0x80, CHR 0xAF,
          CHR 0xE2, CHR 0x81, CHR 0x9F, CHR 0xE3, CHR 0x80, CHR 0x80,
          CHR 0xEF, CHR 0xBB, CHR 0xBF] @ ''+0X1f'')
      = Number 31
   \<and> parseColor ''#-0xFf'' = Number (- 255)
   \<and> parseColor ''#-0'' = NegZero
   \<and> parseColor ''#0x'' = NaN
   \<and> parseColor ''# #ff'' = NaN
   \<and> parseColor ''#20000000000001'' = Number (2 ^ 53)
   \<and> parseColor ''#20000000000003'' = Number (2 ^ 53 + 4)
   \<and> parseColor (CHR ''#'' # replicate 256 CHR ''f'') = PosInfinity
   \<and> parseColor ''red'' = Number 0xFFFFFF
   \<and> (\<exists>st. nodeStyle (DEFAULT_SETTINGS\<lparr>selectedNodeColor := ''red''\<rparr>) (Some ''A'') ''A'' 0 None
            = Inr st \<and> tint st = Number 0xFFFFFF)
   \<and> (\<exists>st. nodeStyle DEFAULT_SETTINGS (Some ''A'') ''B'' 1
              (Some \<lparr>style_color = Some ''blue'', style_shape = None, style_size = None\<rparr>)
            = Inr st \<and> tint st = Number 0xFFFFFF)
   \<and> (\<exists>st. edgeStyle (DEFAULT_SETTINGS\<lparr>edgeColor := ''gray''\<rparr>) (Some ''A'') [] Map.empty
              Map.empty (Some ''B'') (Some ''C'')
            = Inr st \<and> edge_tint st = Number 0xFFFFFF)"
proof -
  note whole = parseColor_parses_or_white
  note layout = whole [THEN conjunct2, THEN conjunct1, rule_format]
  note run = whole [THEN conjunct2, THEN conjunct2, THEN conjunct1, rule_format]
  note white = whole [THEN conjunct2, THEN conjunct2, THEN conjunct2, THEN conjunct1,
    rule_format]
  note node = whole [THEN conjunct2, THEN conjunct2, THEN conjunct2, THEN conjunct2,
    THEN conjunct1, rule_format]
  note edge = whole [THEN conjunct2, THEN conjunct2, THEN conjunct2, THEN conjunct2,
    THEN conjunct2, THEN conjunct2, rule_format]
  have 1: "parseColor ''#112233'' = Number 0x112233"
    using run [of "''112233''"] by (simp add: hex_chars_def base16_def base16_digit_def)
  have 2: "parseColor ''#abcdef'' = Number 0xABCDEF"
    using run [of "''abcdef''"] by (simp add: hex_chars_def base16_def base16_digit_def)
  have 3: "parseColor ''#ABCDEF'' = Number 0xABCDEF"
    using run [of "''ABCDEF''"] by (simp add: hex_chars_def base16_def base16_digit_def)
  have l4: "hex_layout ''12zz'' [] [] [] ''12'' ''zz''"
    by (simp add: hex_layout_def white_space_def hex_chars_def)
  have 4: "parseColor ''#12zz'' = Number 0x12"
    using layout [OF l4] by (simp add: base16_def base16_digit_def)
  have l5: "hex_layout [CHR 0xC2, CHR 0xA0, CHR ''f'', CHR ''f''] [[CHR 0xC2, CHR 0xA0]]
      [] [] ''ff'' []"
    by (simp add: hex_layout_def white_space_def hex_chars_def)
  have 5: "parseColor [CHR ''#'', CHR 0xC2, CHR 0xA0, CHR ''f'', CHR ''f''] = Number 255"
    using layout [OF l5] by (simp add: base16_def base16_digit_def)
  have l6: "hex_layout [CHR 0xEF, CHR 0xBB, CHR 0xBF, CHR ''f'', CHR ''f'']
      [[CHR 0xEF, CHR 0xBB, CHR 0xBF]] [] [] ''ff'' []"
    by (simp add: hex_layout_def white_space_def hex_chars_def)
  have 6: "parseColor [CHR ''#'', CHR 0xEF, CHR 0xBB, CHR 0xBF, CHR ''f'', CHR ''f'']
      = Number 255"
    using layout [OF l6] by (simp add: base16_def base16_digit_def)
  let ?all = "[[CHR 0x09], [CHR 0x0A], [CHR 0x0B], [CHR 0x0C], [CHR 0x0D], [CHR 0x20],
      [CHR 0xC2, CHR 0xA0], [CHR 0xE1, CHR 0x9A, CHR 0x80],
      [CHR 0xE2, CHR 0x80, CHR 0x80], [CHR 0xE2, CHR 0x80, CHR 0x81],
      [CHR 0xE2, CHR 0x80, CHR 0x82], [CHR 0xE2, CHR 0x80, CHR 0x83],
      [CHR 0xE2, CHR 0x80, CHR 0x84], [CHR 0xE2, CHR 0x80, CHR 0x85],
      [CHR 0xE2, CHR 0x80, CHR 0x86], [CHR 0xE2, CHR 0x80, CHR 0x87],
      [CHR 0xE2, CHR 0x80, CHR 0x88], [CHR 0xE2, CHR 0x80, CHR 0x89],
      [CHR 0xE2, CHR 0x80, CHR 0x8A], [CHR 0xE2, CHR 0x80, CHR 0xA8],
      [CHR 0xE2, CHR 0x80, CHR 0xA9], [CHR 0xE2, CHR 0x80, CHR 0xAF],
      [CHR 0xE2, CHR 0x81, CHR 0x9F], [CHR 0xE3, CHR 0x80, CHR 0x80],
      [CHR 0xEF, CHR 0xBB, CHR 0xBF]]"
  have l7: "hex_layout (concat ?all @ ''+0X1f'') ?all ''+'' ''0X'' ''1f'' []"
    by (simp add: hex_layout_def white_space_def hex_chars_def)
  have 7: "parseColor (CHR ''#'' # concat ?all @ ''+0X1f'') = Number 31"
    using layout [OF l7] by (simp add: base16_def base16_digit_def)
  have l8: "hex_layout ''-0xFf'' [] ''-'' ''0x'' ''Ff'' []"
    by (simp add: hex_layout_def white_space_def hex_chars_def)
  have 8: "parseColor ''#-0xFf'' = Number (- 255)"
    using layout [OF l8] by (simp add: base16_def base16_digit_def)
  have l9: "hex_layout ''-0'' [] ''-'' [] ''0'' []"
    by (simp add: hex_layout_def white_space_def hex_chars_def)
  have 9: "parseColor ''#-0'' = NegZero"
    using layout [OF l9] by (simp add: base16_def base16_digit_def)
  have l10: "hex_layout ''0x'' [] [] ''0x'' [] []"
    by (simp add: hex_layout_def white_space_def hex_chars_def)
  have 10: "parseColor ''#0x'' = NaN"
    using layout [OF l10] by simp
  have l11: "hex_layout '' #ff'' [[CHR 0x20]] [] [] [] ''#ff''"
    by (simp add: hex_layout_def white_space_def hex_chars_def)
  have 11: "parseColor ''# #ff'' = NaN"
    using layout [OF l11] by simp
  have 12: "parseColor ''#20000000000001'' = Number (2 ^ 53)"
    by (simp add: ties_to_even)
  have 13: "parseColor ''#20000000000003'' = Number (2 ^ 53 + 4)"
    by (simp add: ties_to_even)
  have l14: "hex_layout (replicate 256 CHR ''f'') [] [] [] (replicate 256 CHR ''f'') []"
    by (rule hex_run_layout) (simp_all add: hex_chars_def)
  have 14: "parseColor (CHR ''#'' # replicate 256 CHR ''f'') = PosInfinity"
    using layout [OF l14] by (simp add: base16_replicate_f)
  have 15: "parseColor ''red'' = Number 0xFFFFFF"
    using white [of "''red''"] by simp
  have 16: "\<exists>st. nodeStyle (DEFAULT_SETTINGS\<lparr>selectedNodeColor := ''red''\<rparr>) (Some ''A'') ''A''
      0 None = Inr st \<and> tint st = Number 0xFFFFFF"
    using node [of "DEFAULT_SETTINGS\<lparr>selectedNodeColor := ''red''\<rparr>" "Some ''A''" "''A''" 0 None
        "''red''"]
    by (auto simp: color_alpha_size_def truthy_def)
  have 17: "\<exists>st. nodeStyle DEFAULT_SETTINGS (Some ''A'') ''B'' 1
      (Some \<lparr>style_color = Some ''blue'', style_shape = None, style_size = None\<rparr>) = Inr st
      \<and> tint st = Number 0xFFFFFF"
    using node [of DEFAULT_SETTINGS "Some ''A''" "''B''" 1
        "Some \<lparr>style_color = Some ''blue'', style_shape = None, style_size = None\<rparr>" "''blue''"]
    by (auto simp: color_alpha_size_def truthy_def or_else_def DEFAULT_SETTINGS_def)
  have 18: "\<exists>st. edgeStyle (DEFAULT_SETTINGS\<lparr>edgeColor := ''gray''\<rparr>) (Some ''A'') [] Map.empty
      Map.empty (Some ''B'') (Some ''C'') = Inr st \<and> edge_tint st = Number 0xFFFFFF"
    using edge [of "DEFAULT_SETTINGS\<lparr>edgeColor := ''gray''\<rparr>" "Some ''A''" "[]" Map.empty
        Map.empty "Some ''B''" "Some ''C''"]
    by (auto simp: DEFAULT_SETTINGS_def truthy_def Let_def)
  from 1 2 3 4 5 6 7 8 9 10 11 12 13 14 15 16 17 18 show ?thesis
    unfolding concat.simps append.simps by (intro conjI)
qed

text \<open>
  Not every string that starts with \<open>#\<close> is mapped to the integer its remainder denotes in
  base 16: \<open>#\<close> and \<open>#zz\<close> are mapped to \<open>NaN\<close>, and \<open>#20000000000001\<close>, whose digits are
  worth \<open>2^53 + 1\<close>, to \<open>2^53\<close>.
\<close>

theorem parseColor_not_the_integer:
  "parseColor ''#'' = NaN
   \<and> parseColor ''#zz'' = NaN
   \<and> parseColor ''#20000000000001'' = Number 9007199254740992
   \<and> base16 ''20000000000001'' = 9007199254740993"
proof -
  have l1: "hex_layout [] [] [] [] [] []"
    by (simp add: hex_layout_def white_space_def)
  have 1: "parseColor ''#'' = NaN"
    unfolding parseColor_hash parseInt16_layout [OF l1] by simp
  have l2: "hex_layout ''zz'' [] [] [] [] ''zz''"
    by (simp add: hex_layout_def white_space_def hex_chars_def)
  have 2: "parseColor ''#zz'' = NaN"
    unfolding parseColor_hash parseInt16_layout [OF l2] by simp
  have 3: "base16 ''20000000000001'' = 9007199254740993"
    by (simp add: base16_def base16_digit_def)
  from 1 2 ties_to_even(1) 3 show ?thesis by (intro conjI)
qed

subsection \<open>Edges coloured by hop\<close>

lemma minHopOf_Some:
  "minHopOf a b = Some h
     \<longleftrightarrow> 0 < h \<and> (h = a \<or> h = b) \<and> (0 < a \<longrightarrow> h \<le> a) \<and> (0 < b \<longrightarrow> h \<le> b)"
  by (auto simp: minHopOf_def)

lemma minHopOf_None: "minHopOf a b = None \<longleftrightarrow> a \<le> 0 \<and> b \<le> 0"
  by (auto simp: minHopOf_def)

text \<open>
  Claim C4. In the mode \<open>by-hop\<close>, for a link with neither endpoint active, \<open>minHop\<close>
  being the smaller of the positive hop levels of the endpoints: when \<open>minHop \<le> maxHops\<close>
  and a color is configured at index \<open>minHop - 1\<close> of \<open>hopEdgeColors\<close> the link gets that
  color, opacity 0.7 and the default width (and the color \<open>edgeColor\<close> when none is
  configured there); when \<open>minHop > maxHops\<close> it gets \<open>edgeColor\<close>, opacity 0.4 and the
  disconnected width; when neither hop level is positive it gets \<open>edgeColor\<close>, the
  disconnected opacity and the disconnected width.
\<close>

theorem by_hop_edge_style:
  assumes mode: "edgeColorMode settings = BY_HOP"
    and src: "\<not> (truthy activeNodeId \<and> sourceId = activeNodeId)"
    and tgt: "\<not> (truthy activeNodeId \<and> targetId = activeNodeId)"
    and sh: "sourceHop = (case nodeHopLevels (id_or_empty sourceId) of None \<Rightarrow> - 1 | Some h \<Rightarrow> h)"
    and th: "targetHop = (case nodeHopLevels (id_or_empty targetId) of None \<Rightarrow> - 1 | Some h \<Rightarrow> h)"
  shows "(\<forall>minHop c.
            minHopOf sourceHop targetHop = Some minHop \<and> minHop \<le> maxHops settings
            \<and> at_index (hopEdgeColors settings) (minHop - 1) = Some c \<and> c \<noteq> []
            \<longrightarrow> edgeStyle settings activeNodeId neighborsByHop nodeStyles nodeHopLevels
                  sourceId targetId
                = Inr \<lparr>edge_tint = parseColor c, edge_alpha = 0.7,
                       edge_width = defaultEdgeWidth settings\<rparr>)
     \<and> (\<forall>minHop.
            minHopOf sourceHop targetHop = Some minHop \<and> minHop \<le> maxHops settings
            \<and> \<not> truthy (at_index (hopEdgeColors settings) (minHop - 1))
            \<longrightarrow> edgeStyle settings activeNodeId neighborsByHop nodeStyles nodeHopLevels
                  sourceId targetId
                = Inr \<lparr>edge_tint = parseColor (edgeColor settings), edge_alpha = 0.7,
                       edge_width = defaultEdgeWidth settings\<rparr>)
     \<and> (\<forall>minHop.
            minHopOf sourceHop targetHop = Some minHop \<and> maxHops settings < minHop
            \<longrightarrow> edgeStyle settings activeNodeId neighborsByHop nodeStyles nodeHopLevels
                  sourceId targetId
                = Inr \<lparr>edge_tint = parseColor (edgeColor settings), edge_alpha = 0.4,
                       edge_width = disconnectedEdgeWidth settings\<rparr>)
     \<and> (sourceHop \<le> 0 \<and> targetHop \<le> 0
            \<longrightarrow> edgeStyle settings activeNodeId neighborsByHop nodeStyles nodeHopLevels
                  sourceId targetId
                = Inr \<lparr>edge_tint = parseColor (edgeColor settings),
                       edge_alpha = disconnectedOpacity settings,
                       edge_width = disconnectedEdgeWidth settings\<rparr>)
     \<and> (\<forall>h. minHopOf sourceHop targetHop = Some h
            \<longleftrightarrow> 0 < h \<and> (h = sourceHop \<or> h = targetHop)
                \<and> (0 < sourceHop \<longrightarrow> h \<le> sourceHop) \<and> (0 < targetHop \<longrightarrow> h \<le> targetHop))"
proof -
  let ?e = "edgeStyle settings activeNodeId neighborsByHop nodeStyles nodeHopLevels
      sourceId targetId"
  have e: "?e =
      (case minHopOf sourceHop targetHop of
         Some minHop \<Rightarrow>
           if minHop \<le> maxHops settings then
             edge_result
               (call_parseColor (or_else (at_index (hopEdgeColors settings) (minHop - 1))
                  (Some (edgeColor settings))))
               0.7 (defaultEdgeWidth settings)
           else
             edge_result (call_parseColor (Some (edgeColor settings)))
               0.4 (disconnectedEdgeWidth settings)
       | None \<Rightarrow>
           edge_result (call_parseColor (Some (edgeColor settings)))
             (disconnectedOpacity settings) (disconnectedEdgeWidth settings))"
  proof -
    have na: "(truthy activeNodeId \<and> sourceId = activeNodeId) = False"
      "(truthy activeNodeId \<and> targetId = activeNodeId) = False"
      using src tgt by simp_all
    show ?thesis
      unfolding edgeStyle_def Let_def mode na sh th by simp
  qed
  have 1: "?e = Inr \<lparr>edge_tint = parseColor c, edge_alpha = 0.7,
        edge_width = defaultEdgeWidth settings\<rparr>"
    if "minHopOf sourceHop targetHop = Some minHop \<and> minHop \<le> maxHops settings
      \<and> at_index (hopEdgeColors settings) (minHop - 1) = Some c \<and> c \<noteq> []" for minHop c
    using that by (simp add: e or_else_def truthy_def call_parseColor_def edge_result_def)
  have 2: "?e = Inr \<lparr>edge_tint = parseColor (edgeColor settings), edge_alpha = 0.7,
        edge_width = defaultEdgeWidth settings\<rparr>"
    if "minHopOf sourceHop targetHop = Some minHop \<and> minHop \<le> maxHops settings
      \<and> \<not> truthy (at_index (hopEdgeColors settings) (minHop - 1))" for minHop
    using that by (simp add: e or_else_def call_parseColor_def edge_result_def)
  have 3: "?e = Inr \<lparr>edge_tint = parseColor (edgeColor settings), edge_alpha = 0.4,
        edge_width = disconnectedEdgeWidth settings\<rparr>"
    if "minHopOf sourceHop targetHop = Some minHop \<and> maxHops settings < minHop" for minHop
    using that by (simp add: e call_parseColor_def edge_result_def)
  have 4: "?e = Inr \<lparr>edge_tint = parseColor (edgeColor settings),
        edge_alpha = disconnectedOpacity settings,
        edge_width = disconnectedEdgeWidth settings\<rparr>"
    if "sourceHop \<le> 0 \<and> targetHop \<le> 0"
  proof -
    from that have "minHopOf sourceHop targetHop = None" by (simp add: minHopOf_None)
    then show ?thesis by (simp add: e call_parseColor_def edge_result_def)
  qed
  note 5 = minHopOf_Some [of sourceHop targetHop]
  from 1 2 3 4 5 show ?thesis by blast
qed

theorem by_hop_edge_style_witness:
  "edgeStyle
     (DEFAULT_SETTINGS\<lparr>edgeColorMode := BY_HOP, hopEdgeColors := [''#111111'', ''#222222'']\<rparr>)
     (Some ''A'') [(1, [''B'']), (2, [''C'']), (3, [])] Map.empty
     [''B'' \<mapsto> 1, ''C'' \<mapsto> 2] (Some ''B'') (Some ''C'')
   = Inr \<lparr>edge_tint = parseColor ''#111111'', edge_alpha = 0.7, edge_width = 1\<rparr>
   \<and> parseColor ''#111111'' = Number 0x111111"
proof -
  let ?S = "DEFAULT_SETTINGS\<lparr>edgeColorMode := BY_HOP,
      hopEdgeColors := [''#111111'', ''#222222'']\<rparr>"
  let ?levels = "[''B'' \<mapsto> 1::int, ''C'' \<mapsto> 2]"
  have mode: "edgeColorMode ?S = BY_HOP" by simp
  have src: "\<not> (truthy (Some ''A'') \<and> Some ''B'' = Some ''A'')" by simp
  have tgt: "\<not> (truthy (Some ''A'') \<and> Some ''C'' = Some ''A'')" by simp
  have sh: "(1::int) = (case ?levels (id_or_empty (Some ''B'')) of None \<Rightarrow> - 1 | Some h \<Rightarrow> h)"
    by (simp add: id_or_empty_def)
  have th: "(2::int) = (case ?levels (id_or_empty (Some ''C'')) of None \<Rightarrow> - 1 | Some h \<Rightarrow> h)"
    by (simp add: id_or_empty_def)
  have pre: "minHopOf 1 2 = Some 1 \<and> 1 \<le> maxHops ?S
      \<and> at_index (hopEdgeColors ?S) (1 - 1) = Some ''#111111'' \<and> ''#111111'' \<noteq> []"
    by (simp add: minHopOf_def DEFAULT_SETTINGS_def at_index_def)
  from by_hop_edge_style [OF mode src tgt sh th, THEN conjunct1, rule_format, OF pre]
  have 1: "edgeStyle ?S (Some ''A'') [(1, [''B'']), (2, [''C'']), (3, [])] Map.empty ?levels
      (Some ''B'') (Some ''C'')
    = Inr \<lparr>edge_tint = parseColor ''#111111'', edge_alpha = 0.7, edge_width = 1\<rparr>"
    by (simp add: DEFAULT_SETTINGS_def)
  have "parseColor (CHR ''#'' # ''111111'') = Number (hex_value ''111111'')"
    by (rule parseColor_hex_value) (simp_all add: hex_digit_def)
  then have 2: "parseColor ''#111111'' = Number 0x111111"
    by (simp add: hex_value_def hex_digit_def)
  from 1 2 show ?thesis by (rule conjI)
qed

subsection \<open>Missing hop colours\<close>

lemma edge_result_Inr: "\<exists>st. edge_result (call_parseColor (Some c)) a w = Inr st"
  by (simp add: edge_result_def call_parseColor_def)

lemma edgeStyle_returns:
  "\<exists>st. edgeStyle settings activeNodeId neighborsByHop nodeStyles nodeHopLevels sourceId targetId
     = Inr st"
proof -
  have 1: "\<exists>st. edge_result (call_parseColor (or_else x (Some b))) a w = Inr st" for x b a w
    using or_else_Some [of x b] by (auto simp: edge_result_Inr)
  have 2: "\<exists>st. edge_result (case s of None \<Rightarrow> call_parseColor (Some ''#888888'')
      | Some st \<Rightarrow> Inr (tint st)) a w = Inr st" for s :: "NodeStyleResult option" and a w
    by (cases s) (simp_all add: edge_result_def call_parseColor_def)
  show ?thesis
    unfolding edgeStyle_def Let_def
    by (cases "edgeColorMode settings")
      (auto simp: 1 2 edge_result_Inr split: option.splits)
qed

lemma nodeStyle_returns:
  assumes "hopColors settings \<noteq> []"
  shows "\<exists>st. nodeStyle settings activeNodeId nodeId hopLevel ruleStyle = Inr st"
proof -
  from assms have z: "at_index (hopColors settings) 0 = Some (hopColors settings ! 0)"
    by (simp add: at_index_def)
  have "\<exists>c. fst (color_alpha_size settings activeNodeId nodeId hopLevel ruleStyle) = Some c"
    unfolding color_alpha_size_def Let_def z
    using or_else_Some by auto
  then obtain c a s where "color_alpha_size settings activeNodeId nodeId hopLevel ruleStyle
      = (Some c, a, s)"
    by (cases "color_alpha_size settings activeNodeId nodeId hopLevel ruleStyle") auto
  then show ?thesis by (simp add: nodeStyle_def call_parseColor_def)
qed

lemma short_hopColors_fall_back:
  assumes "hopColors settings \<noteq> []"
    and "\<not> (truthy activeNodeId \<and> Some nodeId = activeNodeId)"
    and "0 < hopLevel" and "hopLevel \<le> maxHops settings"
    and "int (length (hopColors settings)) < hopLevel"
  shows "\<exists>st. nodeStyle settings activeNodeId nodeId hopLevel None = Inr st
     \<and> tint st = parseColor (hopColors settings ! 0)"
proof -
  from assms(2) have na: "(truthy activeNodeId \<and> Some nodeId = activeNodeId) = False"
    by simp
  have "color_alpha_size settings activeNodeId nodeId hopLevel None
      = (Some (hopColors settings ! 0), 1, None)"
    unfolding color_alpha_size_def Let_def na using assms(1,3,4,5)
    by (simp add: at_index_def or_else_def truthy_def)
  then show ?thesis by (simp add: nodeStyle_def call_parseColor_def)
qed

lemma findNeighborsByHop_returns: "\<exists>R. findNeighborsByHop adj s m = Inr R"
proof (cases "map_has adj s")
  case True
  with bfs_hops_correct [OF hops_inv_init, of adj m s] show ?thesis
    by (auto simp: findNeighborsByHop_def)
next
  case False
  then show ?thesis by (simp add: findNeighborsByHop_def)
qed

text \<open>
  Claim C7, at the input on which the code departs from it: with an empty \<open>hopColors\<close>
  array, the graph A - B and the active node A, the style of the hop-1 node B has no
  color to fall back on, \<open>parseColor\<close> is called on \<open>undefined\<close> and raises; likewise for
  any node when no active node is known.
\<close>

theorem empty_hopColors_raises:
  "buildFromNodes (NodesArray
       [Node (Some ''A'') (LinksSet [LObject (Some ''B'')]) LinksFalsy,
        Node (Some ''B'') LinksFalsy (LinksSet [LObject (Some ''A'')])])
     = Inr [(''A'', [''B'']), (''B'', [''A''])]
   \<and> findNeighborsByHop [(''A'', [''B'']), (''B'', [''A''])] ''A'' 3
     = Inr [(1, [''B'']), (2, []), (3, [])]
   \<and> getAllConnectedNodes [(''A'', [''B'']), (''B'', [''A''])] ''A'' = [''B'']
   \<and> applyStyles_node (DEFAULT_SETTINGS\<lparr>hopColors := []\<rparr>) (\<lambda>p. NotAFile) (Some ''A'')
       [(1, [''B'']), (2, []), (3, [])] [''B''] ''B''
     = Inl TypeError
   \<and> applyStyles_node (DEFAULT_SETTINGS\<lparr>hopColors := []\<rparr>) (\<lambda>p. NotAFile) None [] [] ''B''
     = Inl TypeError"
proof -
  have 1: "buildFromNodes (NodesArray
       [Node (Some ''A'') (LinksSet [LObject (Some ''B'')]) LinksFalsy,
        Node (Some ''B'') LinksFalsy (LinksSet [LObject (Some ''A'')])])
     = Inr [(''A'', [''B'']), (''B'', [''A''])]"
    by (simp add: buildFromNodes_def link_of_def addEdge_def ensure_key_def add_neighbor_def
        map_has_def map_set_def set_add_def)
  have 2: "findNeighborsByHop [(''A'', [''B'']), (''B'', [''A''])] ''A'' 3
     = Inr [(1, [''B'']), (2, []), (3, [])]"
    by (simp add: findNeighborsByHop_def neighbors_def set_add_def hop_add_def map_set_def
        map_has_def upto.simps)
  have 3: "getAllConnectedNodes [(''A'', [''B'']), (''B'', [''A''])] ''A'' = [''B'']"
    by (simp add: getAllConnectedNodes_def neighbors_def set_add_def map_has_def)
  have 4: "applyStyles_node (DEFAULT_SETTINGS\<lparr>hopColors := []\<rparr>) (\<lambda>p. NotAFile) (Some ''A'')
       [(1, [''B'']), (2, []), (3, [])] [''B''] ''B'' = Inl TypeError"
    by (simp add: applyStyles_node_def nodeStyle_def color_alpha_size_def hopLevelOf_def
        getStyleFromRules_def hop_has_def truthy_def or_else_def at_index_def
        call_parseColor_def DEFAULT_SETTINGS_def upto.simps)
  have 5: "applyStyles_node (DEFAULT_SETTINGS\<lparr>hopColors := []\<rparr>) (\<lambda>p. NotAFile) None [] []
       ''B'' = Inl TypeError"
    by (simp add: applyStyles_node_def nodeStyle_def color_alpha_size_def hopLevelOf_def
        getStyleFromRules_def hop_has_def truthy_def or_else_def at_index_def
        call_parseColor_def DEFAULT_SETTINGS_def)
  from 1 2 3 4 5 show ?thesis by (intro conjI)
qed

end
